theory Spec2Isabelle
  imports Main "HOL-Library.Word"
begin

section \<open>JavaScript values\<close>

text \<open>
  The frontend compares values that may be \<open>undefined\<close>, \<open>null\<close>, a string or a
  number. Strict equality \<open>===\<close> on these four kinds is structural equality, so it is
  HOL's \<open>=\<close> on \<open>jsval\<close>. Optional chaining \<open>o?.f\<close> on a missing object is
  \<open>Undefined\<close>.
\<close>

datatype jsval = Undefined | Null | JStr string | JNum int

text \<open>
  String conversion, as a template literal \<open>`${v}`\<close> or a property key does it. Numbers
  are integers here and are printed in decimal, which is what JavaScript prints for
  integers below \<open>10^21\<close> in absolute value.
\<close>

definition digit_char :: "nat \<Rightarrow> char" where
  "digit_char d = ''0123456789'' ! (d mod 10)"

fun show_nat :: "nat \<Rightarrow> string" where
  "show_nat n = (if n < 10 then [digit_char n] else show_nat (n div 10) @ [digit_char (n mod 10)])"

declare show_nat.simps [simp del]

definition to_string :: "jsval \<Rightarrow> string" where
  "to_string v =
     (case v of
        Undefined \<Rightarrow> ''undefined''
      | Null \<Rightarrow> ''null''
      | JStr s \<Rightarrow> s
      | JNum n \<Rightarrow> (if n < 0 then CHR ''-'' # show_nat (nat (- n)) else show_nat (nat n)))"

section \<open>Task status (types/enums)\<close>

text \<open>
  \<^verbatim>\<open>export enum task_status { READY = 0, LOCKED_FOR_MAPPING = 1, MAPPED = 2,
  LOCKED_FOR_VALIDATION = 3, VALIDATED = 4, INVALIDATED = 5, BAD = 6, SPLIT = 7,
  ARCHIVED = 8 }\<close>
  A numeric TypeScript enum is an object with both directions: \<open>task_status[1]\<close> is the
  name \<open>'LOCKED_FOR_MAPPING'\<close> and \<open>task_status['LOCKED_FOR_MAPPING']\<close> is \<open>1\<close>.
  Keys are strings, so \<open>task_status['1']\<close> is the name as well; any other key gives
  \<open>undefined\<close>.
\<close>

datatype task_status =
  READY | LOCKED_FOR_MAPPING | MAPPED | LOCKED_FOR_VALIDATION | VALIDATED
  | INVALIDATED | BAD | SPLIT | ARCHIVED

fun status_code :: "task_status \<Rightarrow> int" where
  "status_code READY = 0"
| "status_code LOCKED_FOR_MAPPING = 1"
| "status_code MAPPED = 2"
| "status_code LOCKED_FOR_VALIDATION = 3"
| "status_code VALIDATED = 4"
| "status_code INVALIDATED = 5"
| "status_code BAD = 6"
| "status_code SPLIT = 7"
| "status_code ARCHIVED = 8"

fun status_name :: "task_status \<Rightarrow> string" where
  "status_name READY = ''READY''"
| "status_name LOCKED_FOR_MAPPING = ''LOCKED_FOR_MAPPING''"
| "status_name MAPPED = ''MAPPED''"
| "status_name LOCKED_FOR_VALIDATION = ''LOCKED_FOR_VALIDATION''"
| "status_name VALIDATED = ''VALIDATED''"
| "status_name INVALIDATED = ''INVALIDATED''"
| "status_name BAD = ''BAD''"
| "status_name SPLIT = ''SPLIT''"
| "status_name ARCHIVED = ''ARCHIVED''"

definition all_statuses :: "task_status list" where
  "all_statuses = [READY, LOCKED_FOR_MAPPING, MAPPED, LOCKED_FOR_VALIDATION, VALIDATED,
     INVALIDATED, BAD, SPLIT, ARCHIVED]"

text \<open>The enum object indexed by a value: \<open>task_status[v]\<close>.\<close>

definition task_status_lookup :: "jsval \<Rightarrow> jsval" where
  "task_status_lookup v =
     (case v of
        JNum n \<Rightarrow>
          (case find (\<lambda>s. status_code s = n) all_statuses of
             Some s \<Rightarrow> JStr (status_name s) | None \<Rightarrow> Undefined)
      | JStr x \<Rightarrow>
          (case find (\<lambda>s. status_name s = x) all_statuses of
             Some s \<Rightarrow> JNum (status_code s)
           | None \<Rightarrow>
               (case find (\<lambda>s. to_string (JNum (status_code s)) = x) all_statuses of
                  Some s \<Rightarrow> JStr (status_name s) | None \<Rightarrow> Undefined))
      | _ \<Rightarrow> Undefined)"

section \<open>Task selection popup (TaskSelectionPopup)\<close>

text \<open>
  One element of \<open>taskBoundries\<close> as \<open>ProjectById\<close> persists it. \<open>index\<close> is the
  server's \<open>project_task_index\<close>, a number; the outline is opaque; the history is the
  list of status changes of the task.
\<close>

record history_event =
  actor :: string
  fromStatus :: task_status
  toStatus :: task_status
  timestamp :: nat

record task_boundary =
  tb_id :: int
  tb_index :: int
  tb_outline_geojson :: jsval
  tb_task_status :: jsval
  tb_locked_by_uid :: jsval
  tb_locked_by_username :: jsval
  tb_task_history :: "history_event list"

record project_boundaries =
  pb_id :: int
  taskBoundries :: "task_boundary list"

text \<open>
  \<open>projectData.findIndex((project) => project.id == currentProjectId)\<close>: the position
  of the first match, or \<open>-1\<close>. \<open>currentProjectId\<close> is the URL parameter, a string, and
  \<open>==\<close> is JavaScript's loose equality between a number and a string; it is the
  parameter \<open>loose\<close> here.
\<close>

fun findIndex :: "('a \<Rightarrow> bool) \<Rightarrow> 'a list \<Rightarrow> int" where
  "findIndex p [] = -1"
| "findIndex p (x # xs) =
     (if p x then 0 else (let i = findIndex p xs in if i = -1 then -1 else i + 1))"

text \<open>\<open>xs?.[i]\<close>: \<open>undefined\<close> (here \<open>None\<close>) outside the array, \<open>-1\<close> included.\<close>

definition js_index :: "'a list \<Rightarrow> int \<Rightarrow> 'a option" where
  "js_index xs i = (if 0 \<le> i \<and> i < int (length xs) then Some (xs ! nat i) else None)"

text \<open>
  \<open>taskId\<close> has type \<open>number | null\<close>; \<open>indTask?.index == taskId\<close> between a number
  and \<open>null\<close> is false.
\<close>

definition index_matches :: "int option \<Rightarrow> task_boundary \<Rightarrow> bool" where
  "index_matches taskId t = (case taskId of None \<Rightarrow> False | Some n \<Rightarrow> tb_index t = n)"

text \<open>
  \<open>selectedTask = {...projectData?.[projectIndex]?.taskBoundries?.filter(...)?.[0]}\<close>:
  the first task with the index, or the empty object (here \<open>None\<close>), whose every field
  reads \<open>undefined\<close>.
\<close>

definition selectedTask ::
  "(project_boundaries \<Rightarrow> bool) \<Rightarrow> project_boundaries list \<Rightarrow> int option \<Rightarrow> task_boundary option"
where
  "selectedTask loose projectData taskId =
     (case js_index projectData (findIndex loose projectData) of
        None \<Rightarrow> None
      | Some p \<Rightarrow> js_index (filter (index_matches taskId) (taskBoundries p)) 0)"

definition field_of :: "('a \<Rightarrow> jsval) \<Rightarrow> 'a option \<Rightarrow> jsval" where
  "field_of f obj = (case obj of None \<Rightarrow> Undefined | Some x \<Rightarrow> f x)"

text \<open>
  \<open>authDetails\<close> is \<open>None\<close> when nobody is logged in; \<open>authDetails?.username\<close> is then
  \<open>undefined\<close>.
  \<^verbatim>\<open>const checkIfTaskAssignedOrNot =
    selectedTask?.locked_by_username === authDetails?.username ||
    selectedTask?.locked_by_username === null;\<close>
\<close>

definition checkIfTaskAssignedOrNot :: "task_boundary option \<Rightarrow> jsval option \<Rightarrow> bool" where
  "checkIfTaskAssignedOrNot sel authDetails =
     (field_of tb_locked_by_username sel = field_of id authDetails
      \<or> field_of tb_locked_by_username sel = Null)"

text \<open>
  The effect that computes the displayed status. \<open>tasksStatus\<close> is the table
  \<open>environment.tasksStatus\<close> (its labels), \<open>label_eq\<close> is JavaScript's loose equality
  \<open>data.label == currentStatus.task_status\<close> between a label and a stored status,
  \<open>feature_has_id\<close> is \<open>feature.id_ != undefined\<close>, \<open>prev\<close> the state before the
  effect (initially \<open>'READY'\<close>). With no project found the state is left as it is.
\<close>

definition displayed_status ::
  "(project_boundaries \<Rightarrow> bool) \<Rightarrow> (string \<Rightarrow> jsval \<Rightarrow> bool) \<Rightarrow>
   project_boundaries list \<Rightarrow> int option \<Rightarrow> string list \<Rightarrow> bool \<Rightarrow> jsval \<Rightarrow> jsval"
where
  "displayed_status loose label_eq projectData taskId tasksStatus feature_has_id prev =
     (let projectIndex = findIndex loose projectData in
      if projectIndex \<noteq> -1 then
        (let currentStatus =
               js_index (filter (index_matches taskId)
                 (taskBoundries (projectData ! nat projectIndex))) 0;
             findCorrectTaskStatusIndex =
               findIndex (\<lambda>label. label_eq label (field_of tb_task_status currentStatus))
                 tasksStatus
         in if feature_has_id
            then field_of JStr (js_index tasksStatus findCorrectTaskStatusIndex)
            else JStr '''')
      else prev)"

text \<open>
  \<^verbatim>\<open>{checkIfTaskAssignedOrNot && task_status !== 'LOCKED_FOR_MAPPING' && (<QrcodeComponent .../>)}\<close>
\<close>

definition qr_exposed :: "task_boundary option \<Rightarrow> jsval option \<Rightarrow> jsval \<Rightarrow> bool" where
  "qr_exposed sel authDetails task_status_shown =
     (checkIfTaskAssignedOrNot sel authDetails \<and> task_status_shown \<noteq> JStr ''LOCKED_FOR_MAPPING'')"

definition popup_shows_qr ::
  "(project_boundaries \<Rightarrow> bool) \<Rightarrow> project_boundaries list \<Rightarrow> int option \<Rightarrow>
   jsval option \<Rightarrow> jsval \<Rightarrow> bool"
where
  "popup_shows_qr loose projectData taskId authDetails task_status_shown =
     qr_exposed (selectedTask loose projectData taskId) authDetails task_status_shown"

section \<open>Offline basemap download (DownloadTile)\<close>

text \<open>
  Exceptions of the thunks are values. \<open>RequestFailed\<close> is a rejected axios promise,
  \<open>TypeError\<close> a property read on \<open>undefined\<close>, \<open>WriteFailed\<close> a rejected
  \<open>writeBinaryToOPFS\<close>.
\<close>

datatype error = RequestFailed | TypeError | WriteFailed

type_synonym bytes = "8 word list"

text \<open>
  \<open>h.split('filename=')[1]\<close>: the text between the first and the second occurrence of
  the separator (to the end when there is no second one), \<open>undefined\<close> when the
  separator does not occur.
\<close>

fun cut_at :: "string \<Rightarrow> string \<Rightarrow> string \<times> string option" where
  "cut_at sep [] = ([], if sep = [] then Some [] else None)"
| "cut_at sep (c # cs) =
     (if take (length sep) (c # cs) = sep then ([], Some (drop (length sep) (c # cs)))
      else (let (p, r) = cut_at sep cs in (c # p, r)))"

definition split_second :: "string \<Rightarrow> string \<Rightarrow> jsval" where
  "split_second sep h =
     (case snd (cut_at sep h) of None \<Rightarrow> Undefined | Some rest \<Rightarrow> JStr (fst (cut_at sep rest)))"

record http_response =
  data :: bytes
  content_disposition :: "string option"
  content_type :: jsval

text \<open>
  What the thunk does to the world, in order. \<open>'fs\<close> is the origin private file system;
  \<open>writeBinaryToOPFS\<close> (of api/Files) is the parameter \<open>w\<close>: it returns the file system
  after the call and the exception it rejected with, if any.
\<close>

datatype action =
  SetDownloadTileLoading bool
  | AxiosGet string
  | WriteBinaryToOPFS string bytes
  | SetProjectOpfsBasemapPath string
  | AnchorClick jsval bytes
  | RevokeObjectURL

record 'fs browser =
  opfs :: 'fs
  opfsBasemapPath :: "string option"
  downloadTileLoading :: bool
  downloads :: "(jsval \<times> bytes) list"
  trace :: "action list"

definition emit :: "action \<Rightarrow> 'fs browser \<Rightarrow> 'fs browser" where
  "emit a s = s\<lparr>trace := trace s @ [a]\<rparr>"

definition set_loading :: "bool \<Rightarrow> 'fs browser \<Rightarrow> 'fs browser" where
  "set_loading b s = emit (SetDownloadTileLoading b) (s\<lparr>downloadTileLoading := b\<rparr>)"

text \<open>
  The body of the \<open>try\<close> block of \<open>getDownloadTile\<close>. The result is the exception that
  left the block (if any) and the state reached. \<open>payload\<close> is \<open>None\<close> when the
  argument is \<open>undefined\<close>, else \<open>Some\<close> of its \<open>id\<close> field.
\<close>

definition getDownloadTile_try ::
  "(string \<Rightarrow> error + http_response) \<Rightarrow> (string \<Rightarrow> bytes \<Rightarrow> 'fs \<Rightarrow> 'fs \<times> error option) \<Rightarrow>
   string \<Rightarrow> jsval option \<Rightarrow> bool \<Rightarrow> 'fs browser \<Rightarrow> error option \<times> 'fs browser"
where
  "getDownloadTile_try fetch w url payload toOpfs s0 =
     (let s = emit (AxiosGet url) s0 in
      case fetch url of
        Inl e \<Rightarrow> (Some e, s)
      | Inr response \<Rightarrow>
          (let tileData = data response in
           if toOpfs then
             (case payload of
                None \<Rightarrow> (Some TypeError, s)
              | Some projectId \<Rightarrow>
                  (let filePath = to_string projectId @ ''/all.pmtiles'';
                       (fs', failure) = w filePath tileData (opfs s);
                       s1 = emit (WriteBinaryToOPFS filePath tileData) (s\<lparr>opfs := fs'\<rparr>)
                   in case failure of
                        Some e \<Rightarrow> (Some e, s1)
                      | None \<Rightarrow>
                          (None, emit (SetProjectOpfsBasemapPath filePath)
                                   (s1\<lparr>opfsBasemapPath := Some filePath\<rparr>))))
           else
             (case content_disposition response of
                None \<Rightarrow> (Some TypeError, s)
              | Some h \<Rightarrow>
                  (let filename = split_second ''filename='' h;
                       s1 = emit (AnchorClick filename tileData)
                              (s\<lparr>downloads := downloads s @ [(filename, tileData)]\<rparr>);
                       s2 = emit RevokeObjectURL s1
                   in (None, set_loading False s2)))))"

text \<open>
  \<open>DownloadTile\<close>: loading on, the \<open>try\<close> block, the \<open>catch\<close> block when an exception
  left it, and the \<open>finally\<close> block in every case (also after the \<open>return\<close> of the
  OPFS branch).
\<close>

definition DownloadTile ::
  "(string \<Rightarrow> error + http_response) \<Rightarrow> (string \<Rightarrow> bytes \<Rightarrow> 'fs \<Rightarrow> 'fs \<times> error option) \<Rightarrow>
   string \<Rightarrow> jsval option \<Rightarrow> bool \<Rightarrow> 'fs browser \<Rightarrow> 'fs browser"
where
  "DownloadTile fetch w url payload toOpfs s =
     (let (exc, s1) = getDownloadTile_try fetch w url payload toOpfs (set_loading True s);
          s2 = (case exc of Some e \<Rightarrow> set_loading False s1 | None \<Rightarrow> s1)
      in set_loading False s2)"

text \<open>The path a basemap of a project is stored at.\<close>

definition basemap_path :: "jsval \<Rightarrow> string" where
  "basemap_path projectId = to_string projectId @ ''/all.pmtiles''"

section \<open>Submission export polling (getDownloadProjectSubmissionJson)\<close>

text \<open>
  The body of a status response: \<open>null\<close>, a bare string, or an object with the fields
  \<open>status\<close> and \<open>message\<close>. Reading \<open>.status\<close> of a string gives \<open>undefined\<close>, of
  \<open>null\<close> it throws.
\<close>

datatype resp_data = RNull | RStr string | RObj jsval jsval

fun status_of :: "resp_data \<Rightarrow> error + jsval" where
  "status_of RNull = Inl TypeError"
| "status_of (RStr s) = Inr Undefined"
| "status_of (RObj status message) = Inr status"

fun message_of :: "resp_data \<Rightarrow> jsval" where
  "message_of (RObj status message) = message"
| "message_of _ = Undefined"

text \<open>
  What the loop has done so far: the number of status requests posted and the time
  spent in \<open>setTimeout(resolve, 2000)\<close>.
\<close>

record poll_state =
  requests :: nat
  waited_ms :: nat

definition poll_start :: poll_state where
  "poll_start = \<lparr>requests = 0, waited_ms = 0\<rparr>"

text \<open>
  \<^verbatim>\<open>const checkStatus = async () => {
    let statusResponse;
    do {
      const submissionResponse = await CoreModules.axios.post(...);
      statusResponse = submissionResponse.data;
      if (statusResponse.status === 'PENDING') {
        await new Promise((resolve) => setTimeout(resolve, 2000));
      }
    } while (statusResponse.status === 'PENDING');
    return statusResponse;
  };\<close>
  \<open>srv i\<close> is the server's answer to the \<open>i\<close>-th status request (from 0), \<open>Inl\<close> when
  the request is rejected. The loop has no other exit, so it may run forever: the
  result is \<open>None\<close> then.
\<close>

partial_function (option) checkStatus ::
  "(nat \<Rightarrow> error + resp_data) \<Rightarrow> poll_state \<Rightarrow> ((error + resp_data) \<times> poll_state) option"
where
  "checkStatus srv st =
     (let st1 = st\<lparr>requests := requests st + 1\<rparr> in
      case srv (requests st) of
        Inl e \<Rightarrow> Some (Inl e, st1)
      | Inr statusResponse \<Rightarrow>
          (case status_of statusResponse of
             Inl e \<Rightarrow> Some (Inl e, st1)
           | Inr status \<Rightarrow>
               if status = JStr ''PENDING''
               then checkStatus srv (st1\<lparr>waited_ms := waited_ms st1 + 2000\<rparr>)
               else Some (Inr statusResponse, st1)))"

text \<open>The rest of the thunk: what the user sees, in order.\<close>

datatype ui_action =
  SnackBar jsval string nat
  | JsonLoading bool
  | AnchorDownload resp_data

record start_response =
  Message :: jsval
  task_id :: jsval

definition getDownloadProjectSubmissionJson ::
  "(error + start_response) \<Rightarrow> (jsval \<Rightarrow> nat \<Rightarrow> error + resp_data) \<Rightarrow>
   (ui_action list \<times> poll_state) option"
where
  "getDownloadProjectSubmissionJson start srv =
     (let failed = [SnackBar (JStr ''Something went wrong.'') ''error'' 3000,
                    JsonLoading False, JsonLoading False] in
      case start of
        Inl e \<Rightarrow> Some (JsonLoading True # failed, poll_start)
      | Inr response \<Rightarrow>
          (let shown = [JsonLoading True, SnackBar (Message response) ''success'' 3000] in
           case checkStatus (srv (task_id response)) poll_start of
             None \<Rightarrow> None
           | Some (Inl e, st) \<Rightarrow> Some (shown @ failed, st)
           | Some (Inr finalStatus, st) \<Rightarrow>
               if status_of finalStatus = Inr (JStr ''FAILED'')
               then Some (shown @ [SnackBar (message_of finalStatus) ''error'' 3000,
                                   JsonLoading False], st)
               else Some (shown @ [AnchorDownload finalStatus, JsonLoading False,
                                   JsonLoading False], st)))"

text \<open>A response that keeps the loop going, and what the loop returns on any other.\<close>

definition is_pending :: "error + resp_data \<Rightarrow> bool" where
  "is_pending r = (case r of Inl e \<Rightarrow> False | Inr d \<Rightarrow> status_of d = Inr (JStr ''PENDING''))"

definition poll_result :: "error + resp_data \<Rightarrow> error + resp_data" where
  "poll_result r =
     (case r of Inl e \<Rightarrow> Inl e
      | Inr d \<Rightarrow> (case status_of d of Inl e \<Rightarrow> Inl e | Inr s \<Rightarrow> Inr d))"

text \<open>Servers used below: one that answers \<open>PENDING\<close> \<open>n\<close> times and then \<open>r\<close>.\<close>

definition pending_then :: "nat \<Rightarrow> resp_data \<Rightarrow> nat \<Rightarrow> error + resp_data" where
  "pending_then n r i = (if i < n then Inr (RObj (JStr ''PENDING'') Undefined) else Inr r)"

section \<open>Project log polling (SplitTasks)\<close>

text \<open>
  \<^verbatim>\<open>let generateProjectLogIntervalCb: any = null;\<close> is a variable of the module, shared
  by every instance of the component. \<open>timers\<close> is the browser's table of live
  intervals: the period and the payload the callback closed over. \<open>log_requests\<close> are
  the \<open>GenerateProjectLog\<close> thunks dispatched so far.
\<close>

record log_request =
  project_id :: jsval
  uuid :: jsval

record project_log =
  log_status :: jsval
  log_message :: jsval

record split_tasks =
  generateProjectLogIntervalCb :: "nat option"
  timers :: "nat \<rightharpoonup> nat \<times> log_request"
  next_timer :: nat
  generateQrSuccess :: "jsval option"
  generateProjectLog :: "project_log option"
  projectDetailsResponse_id :: jsval
  log_requests :: "log_request list"
  toggleStatus :: bool
  snackbars :: "(string \<times> string \<times> nat) list"
  navigated :: "jsval list"
  mounted :: bool

text \<open>
  \<open>generateQrSuccess\<close> is \<open>None\<close> for \<open>null\<close>, else \<open>Some\<close> of its \<open>task_id\<close>.
  \<open>clearInterval(null)\<close> and \<open>clearInterval\<close> of a dead id do nothing;
  \<open>setInterval\<close> returns an id never handed out before.
\<close>

definition clearInterval :: "nat option \<Rightarrow> split_tasks \<Rightarrow> split_tasks" where
  "clearInterval h s = (case h of None \<Rightarrow> s | Some i \<Rightarrow> s\<lparr>timers := (timers s)(i := None)\<rparr>)"

definition setInterval :: "log_request \<Rightarrow> nat \<Rightarrow> split_tasks \<Rightarrow> nat \<times> split_tasks" where
  "setInterval payload period s =
     (next_timer s,
      s\<lparr>timers := (timers s)(next_timer s \<mapsto> (period, payload)), next_timer := next_timer s + 1\<rparr>)"

definition GenerateProjectLog :: "log_request \<Rightarrow> split_tasks \<Rightarrow> split_tasks" where
  "GenerateProjectLog payload s = s\<lparr>log_requests := log_requests s @ [payload]\<rparr>"

definition SetSnackBar :: "string \<Rightarrow> string \<Rightarrow> nat \<Rightarrow> split_tasks \<Rightarrow> split_tasks" where
  "SetSnackBar message variant duration s =
     s\<lparr>snackbars := snackbars s @ [(message, variant, duration)]\<rparr>"

text \<open>
  \<^verbatim>\<open>useEffect(() => {
    if (generateQrSuccess) {
      if (generateProjectLogIntervalCb === null) {
        dispatch(GenerateProjectLog(..., { project_id: projectDetailsResponse?.id,
                                           uuid: generateQrSuccess.task_id }));
        setToggleStatus(true);
      }
    }
  }, [generateQrSuccess]);\<close>
\<close>

definition qr_effect :: "split_tasks \<Rightarrow> split_tasks" where
  "qr_effect s =
     (case generateQrSuccess s of
        None \<Rightarrow> s
      | Some tid \<Rightarrow>
          if generateProjectLogIntervalCb s = None
          then (GenerateProjectLog \<lparr>project_id = projectDetailsResponse_id s, uuid = tid\<rparr> s)
                 \<lparr>toggleStatus := True\<rparr>
          else s)"

text \<open>
  The effect on \<open>[generateQrSuccess, generateProjectLog]\<close>: on \<open>FAILED\<close> the interval is
  cleared and the message shown; on \<open>SUCCESS\<close> the interval is cleared, the log and the
  success record are reset and the view navigates to the project (the reset of the
  form data is left out); on \<open>PENDING\<close> an
  interval of 2000 ms is started when the handle is \<open>null\<close>. The handle is not reset by
  the first two branches.
\<close>

definition log_effect :: "split_tasks \<Rightarrow> split_tasks" where
  "log_effect s =
     (case generateQrSuccess s of
        None \<Rightarrow> s
      | Some tid \<Rightarrow>
          (let status = field_of log_status (generateProjectLog s);
               message = field_of log_message (generateProjectLog s);
               s1 = (if status = JStr ''FAILED'' then
                       SetSnackBar (''QR Generation Failed. '' @ to_string message) ''error'' 10000
                         (clearInterval (generateProjectLogIntervalCb s) s)
                     else if status = JStr ''SUCCESS'' then
                       (SetSnackBar ''QR Generation Completed.'' ''success'' 2000
                          (clearInterval (generateProjectLogIntervalCb s) s))
                         \<lparr>generateProjectLog := None, generateQrSuccess := None,
                          navigated := navigated s @ [projectDetailsResponse_id s]\<rparr>
                     else s)
           in if status = JStr ''PENDING'' then
                (if generateProjectLogIntervalCb s1 = None then
                   (let (h, s2) = setInterval
                          \<lparr>project_id = projectDetailsResponse_id s, uuid = tid\<rparr> 2000 s1
                    in s2\<lparr>generateProjectLogIntervalCb := Some h\<rparr>)
                 else s1)
              else s1))"

text \<open>The callback of an interval: it runs only while the interval is alive.\<close>

definition tick :: "nat \<Rightarrow> split_tasks \<Rightarrow> split_tasks" where
  "tick i s = (case timers s i of None \<Rightarrow> s | Some (period, payload) \<Rightarrow> GenerateProjectLog payload s)"

text \<open>
  \<^verbatim>\<open>useEffect(() => {
    return () => {
      clearInterval(generateProjectLogIntervalCb);
      generateProjectLogIntervalCb = null;
      dispatch(CreateProjectActions.SetGenerateProjectLog(null));
    };
  }, []);\<close>
\<close>

definition teardown :: "split_tasks \<Rightarrow> split_tasks" where
  "teardown s =
     (clearInterval (generateProjectLogIntervalCb s) s)
       \<lparr>generateProjectLogIntervalCb := None, generateProjectLog := None, mounted := False\<rparr>"

text \<open>
  Everything that can happen to the view: it mounts (its own state \<open>toggleStatus\<close>
  starts from \<open>false\<close>, the module's handle and the store are as they were left), one
  of its effects runs (only while
  it is mounted), an interval fires, the store receives a success record or a log from
  the server, it unmounts.
\<close>

datatype event =
  Mount
  | QrEffect
  | LogEffect
  | Tick nat
  | StoreQrSuccess "jsval option"
  | StoreProjectLog "project_log option"
  | Unmount

fun step :: "split_tasks \<Rightarrow> event \<Rightarrow> split_tasks" where
  "step s Mount = s\<lparr>mounted := True, toggleStatus := False\<rparr>"
| "step s QrEffect = (if mounted s then qr_effect s else s)"
| "step s LogEffect = (if mounted s then log_effect s else s)"
| "step s (Tick i) = tick i s"
| "step s (StoreQrSuccess q) = s\<lparr>generateQrSuccess := q\<rparr>"
| "step s (StoreProjectLog l) = s\<lparr>generateProjectLog := l\<rparr>"
| "step s Unmount = (if mounted s then teardown s else s)"

definition run :: "split_tasks \<Rightarrow> event list \<Rightarrow> split_tasks" where
  "run s evs = foldl step s evs"

definition split_tasks_init :: "jsval \<Rightarrow> split_tasks" where
  "split_tasks_init pid =
     \<lparr>generateProjectLogIntervalCb = None, timers = Map.empty, next_timer = 1,
      generateQrSuccess = None, generateProjectLog = None, projectDetailsResponse_id = pid,
      log_requests = [], toggleStatus = False, snackbars = [], navigated = [],
      mounted = False\<rparr>"

text \<open>Every live interval is the one the module's handle names.\<close>

definition handle_owns_timers :: "split_tasks \<Rightarrow> bool" where
  "handle_owns_timers s = (dom (timers s) \<subseteq> set_option (generateProjectLogIntervalCb s))"

section \<open>Basemap generation (GenerateProjectTiles)\<close>







section \<open>Fetching a project (ProjectById)\<close>

text \<open>
  One element of \<open>projectResp.tasks\<close> and the part of the response the task registry
  is built from. \<open>ProjectById\<close> stores one project with its tasks; each task keeps the
  server's fields, with \<open>task_status: task_status[data.task_status]\<close>. A failed request
  leaves the store as it was. The project details dispatched next to the tasks
  (\<open>SetProjectInfo\<close>) and the loading flags play no part in the registry and are left
  out.
\<close>

record server_task =
  st_id :: int
  project_task_index :: int
  outline_geojson :: jsval
  st_task_status :: jsval
  locked_by_uid :: jsval
  locked_by_username :: jsval
  task_history :: "history_event list"

record project_response =
  resp_id :: int
  resp_tasks :: "server_task list"

definition persistingValues :: "server_task \<Rightarrow> task_boundary" where
  "persistingValues d =
     \<lparr>tb_id = st_id d, tb_index = project_task_index d,
      tb_outline_geojson = outline_geojson d,
      tb_task_status = task_status_lookup (st_task_status d),
      tb_locked_by_uid = locked_by_uid d,
      tb_locked_by_username = locked_by_username d,
      tb_task_history = task_history d\<rparr>"

definition ProjectById ::
  "error + project_response \<Rightarrow> project_boundaries list \<Rightarrow> project_boundaries list"
where
  "ProjectById project store =
     (case project of
        Inl e \<Rightarrow> store
      | Inr projectResp \<Rightarrow>
          [\<lparr>pb_id = resp_id projectResp,
            taskBoundries = map persistingValues (resp_tasks projectResp)\<rparr>])"

section \<open>The remote authority and the lock coordinator\<close>

text \<open>
  Modelled from the spec: the server side of the task state machine and the
  LockCoordinator are not among the sources (they hold only the status enum, the
  project fetch and the views). Section 4.1 of the specification gives the transitions,
  section 6 the requests: \<open>POST /projects/{id}/tasks/{taskId}/status\<close> with body
  \<open>{from, to}\<close> answers \<open>200 {task}\<close> or \<open>409 {currentStatus}\<close>, and
  \<open>GET /projects/{id}\<close> lists the tasks with status, lock holder and outline.
\<close>

record task =
  taskIndex :: int
  status :: task_status
  lockedBy :: "string option"
  outline :: jsval
  history :: "history_event list"

record authority =
  authority_project :: int
  tasks :: "task list"
  now :: nat

text \<open>
  Modelled from the spec: the transition table of the authority is missing from the
  sources. The transitions of section 4.1, as the holder of the lock after each of them:
  \<open>None\<close> when the transition is not allowed for this actor. Claiming acquires the
  lock, completing a phase releases it. The specification does not say what the
  administrative \<open>SPLIT\<close> does to a lock; by the invariant of section 3 it leaves no
  holder. \<open>SPLIT\<close> ends a task's transitions and \<open>ARCHIVED\<close> is terminal, so neither
  has a transition out.
\<close>

fun holder_after :: "task_status \<Rightarrow> task_status \<Rightarrow> string option \<Rightarrow> string \<Rightarrow> string option option"
where
  "holder_after SPLIT to h a = None"
| "holder_after ARCHIVED to h a = None"
| "holder_after from SPLIT h a = Some None"
| "holder_after READY LOCKED_FOR_MAPPING h a = (if h = None then Some (Some a) else None)"
| "holder_after LOCKED_FOR_MAPPING MAPPED h a = (if h = Some a then Some None else None)"
| "holder_after MAPPED LOCKED_FOR_VALIDATION h a = Some (Some a)"
| "holder_after LOCKED_FOR_VALIDATION VALIDATED h a = (if h = Some a then Some None else None)"
| "holder_after LOCKED_FOR_VALIDATION INVALIDATED h a = (if h = Some a then Some None else None)"
| "holder_after LOCKED_FOR_VALIDATION BAD h a = (if h = Some a then Some None else None)"
| "holder_after INVALIDATED LOCKED_FOR_MAPPING h a = Some (Some a)"
| "holder_after from to h a = None"

datatype reply = Ok200 task | Conflict409 task_status | NotFound404

text \<open>
  Modelled from the spec: the status endpoint of the authority is missing from the
  sources. The status request (section 6) is a compare-and-swap on the task's status. The expected prior
  status must be the current one and the transition must be allowed; then the task
  changes and one history record is appended. Otherwise nothing changes.
\<close>

definition post_status ::
  "authority \<Rightarrow> string \<Rightarrow> int \<Rightarrow> task_status \<Rightarrow> task_status \<Rightarrow> reply \<times> authority"
where
  "post_status srv a n from to =
     (case find (\<lambda>t. taskIndex t = n) (tasks srv) of
        None \<Rightarrow> (NotFound404, srv)
      | Some t \<Rightarrow>
          if status t \<noteq> from then (Conflict409 (status t), srv)
          else (case holder_after from to (lockedBy t) a of
                  None \<Rightarrow> (Conflict409 (status t), srv)
                | Some h \<Rightarrow>
                    (let t' = t\<lparr>status := to, lockedBy := h,
                                 history := history t @
                                   [\<lparr>actor = a, fromStatus = from, toStatus = to,
                                     timestamp = now srv\<rparr>]\<rparr>
                     in (Ok200 t',
                         srv\<lparr>tasks := map (\<lambda>u. if taskIndex u = n then t' else u) (tasks srv),
                             now := now srv + 1\<rparr>))))"

text \<open>
  Modelled from the spec: the project endpoint of the authority is missing from the
  sources. \<open>GET /projects/{id}\<close> (section 6) lists the tasks; the status travels as
  the number of the enum, which \<open>ProjectById\<close> turns into its name.
\<close>

definition encode_task :: "task \<Rightarrow> server_task" where
  "encode_task t =
     \<lparr>st_id = taskIndex t, project_task_index = taskIndex t, outline_geojson = outline t,
      st_task_status = JNum (status_code (status t)),
      locked_by_uid = (case lockedBy t of None \<Rightarrow> Null | Some a \<Rightarrow> JStr a),
      locked_by_username = (case lockedBy t of None \<Rightarrow> Null | Some a \<Rightarrow> JStr a),
      task_history = history t\<rparr>"

definition get_project :: "authority \<Rightarrow> project_response" where
  "get_project srv = \<lparr>resp_id = authority_project srv, resp_tasks = map encode_task (tasks srv)\<rparr>"

text \<open>
  Modelled from the spec: \<open>refreshActivity\<close> and the reads of the TaskRegistry are
  missing from the sources. The TaskRegistry is the store \<open>ProjectById\<close> fills. \<open>refreshActivity\<close> refetches it
  from the authority.
\<close>

definition refreshActivity :: "authority \<Rightarrow> project_boundaries list" where
  "refreshActivity srv = ProjectById (Inr (get_project srv)) []"

definition registry_task :: "project_boundaries list \<Rightarrow> int \<Rightarrow> task_boundary option" where
  "registry_task reg n =
     (case reg of [] \<Rightarrow> None | p # ps \<Rightarrow> find (\<lambda>t. tb_index t = n) (taskBoundries p))"

definition status_of_label :: "jsval \<Rightarrow> task_status option" where
  "status_of_label v = find (\<lambda>s. JStr (status_name s) = v) all_statuses"

definition registry_status :: "project_boundaries list \<Rightarrow> int \<Rightarrow> task_status option" where
  "registry_status reg n =
     (case registry_task reg n of None \<Rightarrow> None | Some t \<Rightarrow> status_of_label (tb_task_status t))"

text \<open>
  Modelled from the spec: the error types of the core are missing from the sources.
  This is the taxonomy of section 7.
\<close>

datatype core_error =
  ConflictError | JobFailedError | TimeoutError | CacheWriteError | NetworkError

text \<open>
  Modelled from the spec: the LockCoordinator's \<open>claim\<close> is missing from the sources
  (section 4.1). \<open>claim(taskId, targetStatus, actor)\<close>: the request carries the status the registry
  holds as the expected prior status (\<open>claim_request\<close>). On \<open>200\<close> the returned task
  is put into the registry; on any rejection the registry is refetched from the
  authority and \<open>ConflictError\<close> is returned.
\<close>

definition claim_request ::
  "project_boundaries list \<Rightarrow> int \<Rightarrow> task_status \<Rightarrow> (task_status \<times> task_status) option"
where
  "claim_request reg n target =
     (case registry_status reg n of None \<Rightarrow> None | Some expected \<Rightarrow> Some (expected, target))"

definition registry_put :: "project_boundaries list \<Rightarrow> task \<Rightarrow> project_boundaries list" where
  "registry_put reg t' =
     (case reg of
        [] \<Rightarrow> []
      | p # ps \<Rightarrow>
          p\<lparr>taskBoundries :=
               map (\<lambda>u. if tb_index u = taskIndex t' then persistingValues (encode_task t') else u)
                 (taskBoundries p)\<rparr> # ps)"

definition claim ::
  "authority \<Rightarrow> project_boundaries list \<Rightarrow> int \<Rightarrow> task_status \<Rightarrow> string \<Rightarrow>
   (core_error + task) \<times> authority \<times> project_boundaries list"
where
  "claim srv reg n target a =
     (case claim_request reg n target of
        None \<Rightarrow> (Inl ConflictError, srv, refreshActivity srv)
      | Some (from, to) \<Rightarrow>
          (case post_status srv a n from to of
             (Ok200 t', srv') \<Rightarrow> (Inr t', srv', registry_put reg t')
           | (other, srv') \<Rightarrow> (Inl ConflictError, srv', refreshActivity srv')))"

text \<open>
  Modelled from the spec: the operations on a task (sections 4.1 and 4.4), none of which
  is among the sources. What can happen to one device and the authority: a request of another device reaches
  the authority, the device claims, the device refreshes.
\<close>

datatype coordination =
  Remote string int task_status task_status
  | Claim int task_status
  | Refresh

record device =
  user :: string
  server :: authority
  registry :: "project_boundaries list"

fun coordinate :: "device \<Rightarrow> coordination \<Rightarrow> device" where
  "coordinate d (Remote a n from to) = d\<lparr>server := snd (post_status (server d) a n from to)\<rparr>"
| "coordinate d (Claim n target) =
     (case claim (server d) (registry d) n target (user d) of
        (r, srv', reg') \<Rightarrow> d\<lparr>server := srv', registry := reg'\<rparr>)"
| "coordinate d Refresh = d\<lparr>registry := refreshActivity (server d)\<rparr>"

definition new_project :: "int \<Rightarrow> int list \<Rightarrow> authority" where
  "new_project pid ns =
     \<lparr>authority_project = pid,
      tasks = map (\<lambda>n. \<lparr>taskIndex = n, status = READY, lockedBy = None, outline = Undefined,
                        history = []\<rparr>) ns,
      now = 0\<rparr>"

definition new_device :: "string \<Rightarrow> authority \<Rightarrow> device" where
  "new_device a srv = \<lparr>user = a, server = srv, registry = refreshActivity srv\<rparr>"

text \<open>
  Modelled from the spec: the invariant of section 3, on the authority's tasks and, as
  \<open>ProjectById\<close> stores them, on the registry's.
\<close>

definition lock_consistent :: "task \<Rightarrow> bool" where
  "lock_consistent t =
     ((lockedBy t \<noteq> None) = (status t = LOCKED_FOR_MAPPING \<or> status t = LOCKED_FOR_VALIDATION))"

definition registry_lock_consistent :: "task_boundary \<Rightarrow> bool" where
  "registry_lock_consistent u =
     ((tb_locked_by_username u \<noteq> Null)
      = (tb_task_status u = JStr ''LOCKED_FOR_MAPPING''
         \<or> tb_task_status u = JStr ''LOCKED_FOR_VALIDATION''))"

definition device_consistent :: "device \<Rightarrow> bool" where
  "device_consistent d =
     (list_all lock_consistent (tasks (server d))
      \<and> list_all (\<lambda>p. list_all registry_lock_consistent (taskBoundries p)) (registry d))"

section \<open>Offline tile cache\<close>

text \<open>
  Modelled from the spec: the OfflineTileCache (\<open>put\<close>, \<open>get\<close>, \<open>evictIfOverBudget\<close>)
  is not among the sources, which only call \<open>writeBinaryToOPFS\<close>. Sections 3 and 4.3 of
  the specification give the entry, the contract and the policies: an entry is keyed by
  \<open>(projectId, resourceKind, resourceId)\<close> and carries its size, the times of creation
  and of last access and a content hash computed at write time; a write marks the entry
  valid only after the bytes are complete and the checksum is verified; a read treats an
  invalid entry or a hash mismatch as a miss; eviction is least recently used by
  \<open>lastAccessedAt\<close>, runs after each \<open>put\<close>, and never removes an entry being read.
  \<open>H\<close> is the hash function.
\<close>

type_synonym cache_key = "int \<times> string \<times> int"

record cache_entry =
  entry_key :: cache_key
  content :: bytes
  sizeBytes :: nat
  createdAt :: nat
  lastAccessedAt :: nat
  integrityHash :: nat
  published :: bool

record tile_cache =
  entries :: "cache_entry list"
  budget :: nat
  clock :: nat
  reading :: "cache_key list"

datatype 'a lookup = Miss | Hit 'a

definition empty_cache :: "nat \<Rightarrow> tile_cache" where
  "empty_cache b = \<lparr>entries = [], budget = b, clock = 0, reading = []\<rparr>"

definition total_bytes :: "tile_cache \<Rightarrow> nat" where
  "total_bytes c = sum_list (map sizeBytes (entries c))"

definition lookup_entry :: "tile_cache \<Rightarrow> cache_key \<Rightarrow> cache_entry option" where
  "lookup_entry c k = find (\<lambda>e. entry_key e = k) (entries c)"

text \<open>
  Modelled from the spec: the write path of the cache (section 4.3) is missing from the
  sources. It has three stages: the entry is created empty and not valid (an
  older entry of the key is dropped), the bytes are appended, and the entry is marked
  valid once the stored bytes hash to the hash of the bytes to write.
\<close>

definition begin_write :: "tile_cache \<Rightarrow> cache_key \<Rightarrow> tile_cache" where
  "begin_write c k =
     c\<lparr>entries := filter (\<lambda>e. entry_key e \<noteq> k) (entries c) @
          [\<lparr>entry_key = k, content = [], sizeBytes = 0, createdAt = clock c,
            lastAccessedAt = clock c, integrityHash = 0, published = False\<rparr>]\<rparr>"

definition write_chunk :: "tile_cache \<Rightarrow> cache_key \<Rightarrow> bytes \<Rightarrow> tile_cache" where
  "write_chunk c k chunk =
     c\<lparr>entries := map (\<lambda>e. if entry_key e = k
                            then e\<lparr>content := content e @ chunk,
                                   sizeBytes := sizeBytes e + length chunk\<rparr>
                            else e) (entries c)\<rparr>"

definition publish :: "(bytes \<Rightarrow> nat) \<Rightarrow> tile_cache \<Rightarrow> cache_key \<Rightarrow> bytes \<Rightarrow> tile_cache option" where
  "publish H c k bs =
     (case lookup_entry c k of
        None \<Rightarrow> None
      | Some e \<Rightarrow>
          if H (content e) = H bs
          then Some (c\<lparr>entries := map (\<lambda>e. if entry_key e = k
                                             then e\<lparr>integrityHash := H bs, published := True\<rparr>
                                             else e) (entries c)\<rparr>)
          else None)"

text \<open>
  Modelled from the spec: \<open>evictIfOverBudget\<close> (section 4.3) is missing from the
  sources. The candidates are the entries that are not being read and are not the
  entry just written; they go in the order of \<open>lastAccessedAt\<close>, oldest first, until the
  total fits the budget. When the candidates run out first, there is no result.
\<close>

definition candidates :: "cache_key \<Rightarrow> tile_cache \<Rightarrow> cache_entry list" where
  "candidates k c =
     filter (\<lambda>e. entry_key e \<noteq> k \<and> entry_key e \<notin> set (reading c)) (entries c)"

fun evict_until ::
  "nat \<Rightarrow> cache_entry list \<Rightarrow> cache_entry list \<Rightarrow> (cache_key list \<times> cache_entry list) option"
where
  "evict_until b [] es = (if sum_list (map sizeBytes es) \<le> b then Some ([], es) else None)"
| "evict_until b (v # vs) es =
     (if sum_list (map sizeBytes es) \<le> b then Some ([], es)
      else (case evict_until b vs (filter (\<lambda>e. entry_key e \<noteq> entry_key v) es) of
              None \<Rightarrow> None
            | Some (ks, es') \<Rightarrow> Some (entry_key v # ks, es')))"

definition evictIfOverBudget :: "cache_key \<Rightarrow> tile_cache \<Rightarrow> (cache_key list \<times> tile_cache) option" where
  "evictIfOverBudget k c =
     (case evict_until (budget c) (sort_key lastAccessedAt (candidates k c)) (entries c) of
        None \<Rightarrow> None
      | Some (ks, es) \<Rightarrow> Some (ks, c\<lparr>entries := es\<rparr>))"

text \<open>
  Modelled from the spec: \<open>put\<close> (sections 4.3 and 7) is missing from the sources.
  \<open>put(key, bytes) -> CacheEntry\<close>, or \<open>CacheWriteError\<close> when the checksum fails or the
  budget is exceeded even after eviction; the write is then rolled back: the cache stays
  as it was before the call.
\<close>

definition put ::
  "(bytes \<Rightarrow> nat) \<Rightarrow> tile_cache \<Rightarrow> cache_key \<Rightarrow> bytes \<Rightarrow> core_error + cache_entry \<times> tile_cache"
where
  "put H c k bs =
     (case publish H (write_chunk (begin_write c k) k bs) k bs of
        None \<Rightarrow> Inl CacheWriteError
      | Some c1 \<Rightarrow>
          (case evictIfOverBudget k c1 of
             None \<Rightarrow> Inl CacheWriteError
           | Some (ks, c2) \<Rightarrow>
               (case lookup_entry c2 k of
                  None \<Rightarrow> Inl CacheWriteError
                | Some e \<Rightarrow> Inr (e, c2\<lparr>clock := clock c2 + 1\<rparr>))))"

text \<open>
  Modelled from the spec: a write interrupted mid-stream (section 8), after \<open>n\<close>
  bytes: the entry is never marked valid.
\<close>

definition put_interrupted :: "tile_cache \<Rightarrow> cache_key \<Rightarrow> bytes \<Rightarrow> nat \<Rightarrow> tile_cache" where
  "put_interrupted c k bs n = write_chunk (begin_write c k) k (take n bs)"

text \<open>
  Modelled from the spec: \<open>get\<close> (section 4.3) is missing from the sources.
  \<open>get(key) -> bytes | Miss\<close>; an entry that is not valid or whose hash does not
  match is a miss; a hit refreshes \<open>lastAccessedAt\<close>.
\<close>

definition get :: "(bytes \<Rightarrow> nat) \<Rightarrow> tile_cache \<Rightarrow> cache_key \<Rightarrow> bytes lookup \<times> tile_cache" where
  "get H c k =
     (case lookup_entry c k of
        None \<Rightarrow> (Miss, c)
      | Some e \<Rightarrow>
          if published e \<and> H (content e) = integrityHash e
          then (Hit (content e),
                c\<lparr>entries := map (\<lambda>e. if entry_key e = k then e\<lparr>lastAccessedAt := clock c\<rparr>
                                        else e) (entries c),
                  clock := clock c + 1\<rparr>)
          else (Miss, c))"

text \<open>
  Modelled from the spec: the operations a caller performs on the cache; a failed
  \<open>put\<close> leaves it unchanged.
\<close>

datatype cache_op = Put cache_key bytes | Get cache_key | BeginRead cache_key | EndRead cache_key

fun cache_step :: "(bytes \<Rightarrow> nat) \<Rightarrow> tile_cache \<Rightarrow> cache_op \<Rightarrow> tile_cache" where
  "cache_step H c (Put k bs) = (case put H c k bs of Inl err \<Rightarrow> c | Inr (e, c') \<Rightarrow> c')"
| "cache_step H c (Get k) = snd (get H c k)"
| "cache_step H c (BeginRead k) = c\<lparr>reading := k # reading c\<rparr>"
| "cache_step H c (EndRead k) = c\<lparr>reading := remove1 k (reading c)\<rparr>"

text \<open>
  Modelled from the spec: the invariant of the cache (section 3): the budget is kept;
  and no key has two entries.
\<close>

definition cache_inv :: "tile_cache \<Rightarrow> bool" where
  "cache_inv c = (total_bytes c \<le> budget c \<and> distinct (map entry_key (entries c)))"

text \<open>
  Modelled from the spec: the bytes eviction cannot free for a write of key \<open>k\<close>
  (section 4.3): those of the entries being read, the older entry of \<open>k\<close> apart, which
  the write replaces.
\<close>

definition pinned_bytes :: "cache_key \<Rightarrow> tile_cache \<Rightarrow> nat" where
  "pinned_bytes k c =
     sum_list (map sizeBytes
       (filter (\<lambda>x. entry_key x \<noteq> k \<and> entry_key x \<in> set (reading c)) (entries c)))"

section \<open>Properties of the popup\<close>

lemma findIndex_range: "findIndex p xs = -1 \<or> (0 \<le> findIndex p xs \<and> findIndex p xs < int (length xs))"
  by (induction xs) (auto simp: Let_def)

lemma findIndex_hit: "0 \<le> findIndex p xs \<Longrightarrow> p (xs ! nat (findIndex p xs))"
proof (induction xs)
  case Nil
  then show ?case by simp
next
  case (Cons x xs)
  show ?case
  proof (cases "p x")
    case True
    then show ?thesis by simp
  next
    case False
    from Cons.prems False have nz: "findIndex p xs \<noteq> -1"
      by (auto simp: Let_def split: if_splits)
    with findIndex_range[of p xs] have ge: "0 \<le> findIndex p xs" by auto
    have "nat (findIndex p xs + 1) = Suc (nat (findIndex p xs))" using ge by simp
    with False nz Cons.IH[OF ge] show ?thesis by (simp add: Let_def)
  qed
qed

lemma selectedTask_sound:
  assumes "selectedTask loose projectData taskId = Some t"
  shows "\<exists>p \<in> set projectData. loose p \<and> t \<in> set (taskBoundries p) \<and> taskId = Some (tb_index t)"
proof -
  let ?i = "findIndex loose projectData"
  from assms obtain p where p: "js_index projectData ?i = Some p"
    and t: "js_index (filter (index_matches taskId) (taskBoundries p)) 0 = Some t"
    by (auto simp: selectedTask_def split: option.splits)
  from p have i: "0 \<le> ?i" "?i < int (length projectData)" and pe: "p = projectData ! nat ?i"
    by (auto simp: js_index_def split: if_splits)
  from i have pin: "p \<in> set projectData" unfolding pe by simp
  from findIndex_hit[OF i(1)] have lp: "loose p" unfolding pe .
  let ?fs = "filter (index_matches taskId) (taskBoundries p)"
  from t have ne: "0 < length ?fs" and te: "t = ?fs ! 0"
    by (auto simp: js_index_def split: if_splits)
  from nth_mem[OF ne] have "t \<in> set ?fs" unfolding te .
  then have "t \<in> set (taskBoundries p)" and "index_matches taskId t" by auto
  then have "taskId = Some (tb_index t)"
    by (auto simp: index_matches_def split: option.splits)
  with pin lp \<open>t \<in> set (taskBoundries p)\<close> show ?thesis by blast
qed

text \<open>
  C10. The popup renders the QR code exactly when the selected task's
  \<open>locked_by_username\<close> is \<open>null\<close> or strictly equal to the viewer's username, and
  the displayed status is not \<open>'LOCKED_FOR_MAPPING'\<close>. In particular a task whose
  \<open>locked_by_username\<close> is the name of another mapper never shows the QR code,
  whatever status is displayed.
\<close>

theorem qr_exposed_iff_claimable:
  "popup_shows_qr loose projectData taskId authDetails shown \<longleftrightarrow>
     ((field_of tb_locked_by_username (selectedTask loose projectData taskId) = Null
       \<or> field_of tb_locked_by_username (selectedTask loose projectData taskId)
           = field_of id authDetails)
      \<and> shown \<noteq> JStr ''LOCKED_FOR_MAPPING'')
   \<and> (\<forall>t other. selectedTask loose projectData taskId = Some t
         \<and> tb_locked_by_username t = JStr other \<and> authDetails \<noteq> Some (JStr other)
         \<longrightarrow> \<not> popup_shows_qr loose projectData taskId authDetails shown)"
  by (auto simp: popup_shows_qr_def qr_exposed_def checkIfTaskAssignedOrNot_def field_of_def
      split: option.splits)

theorem qr_exposed_iff_claimable_witness:
  "\<not> popup_shows_qr (\<lambda>p. pb_id p = 7)
       [\<lparr>pb_id = 7, taskBoundries =
          [\<lparr>tb_id = 40, tb_index = 12, tb_outline_geojson = Undefined,
            tb_task_status = JStr ''LOCKED_FOR_MAPPING'', tb_locked_by_uid = JNum 2,
            tb_locked_by_username = JStr ''alice'', tb_task_history = []\<rparr>]\<rparr>]
       (Some 12) (Some (JStr ''bob'')) (JStr ''READY'')
   \<and> selectedTask (\<lambda>p. pb_id p = 7)
       [\<lparr>pb_id = 7, taskBoundries =
          [\<lparr>tb_id = 40, tb_index = 12, tb_outline_geojson = Undefined,
            tb_task_status = JStr ''LOCKED_FOR_MAPPING'', tb_locked_by_uid = JNum 2,
            tb_locked_by_username = JStr ''alice'', tb_task_history = []\<rparr>]\<rparr>]
       (Some 12)
     = Some \<lparr>tb_id = 40, tb_index = 12, tb_outline_geojson = Undefined,
            tb_task_status = JStr ''LOCKED_FOR_MAPPING'', tb_locked_by_uid = JNum 2,
            tb_locked_by_username = JStr ''alice'', tb_task_history = []\<rparr>"
  using qr_exposed_iff_claimable [of "\<lambda>p. pb_id p = 7"
       "[\<lparr>pb_id = 7, taskBoundries =
          [\<lparr>tb_id = 40, tb_index = 12, tb_outline_geojson = Undefined,
            tb_task_status = JStr ''LOCKED_FOR_MAPPING'', tb_locked_by_uid = JNum 2,
            tb_locked_by_username = JStr ''alice'', tb_task_history = []\<rparr>]\<rparr>]"
       "Some 12" "Some (JStr ''bob'')" "JStr ''READY''"]
  by (simp add: selectedTask_def js_index_def index_matches_def field_of_def)

text \<open>
  The displayed status comes from the registry through the effect (between a label and
  a stored name, both strings, loose equality is equality of the strings): for a task
  the registry holds as \<open>LOCKED_FOR_MAPPING\<close> it is that label, and the QR code is then
  hidden from the holder of the lock as well.
\<close>

lemma own_mapping_lock_hides_qr:
  "displayed_status (\<lambda>p. pb_id p = 7) (\<lambda>label v. v = JStr label)
       [\<lparr>pb_id = 7, taskBoundries =
          [\<lparr>tb_id = 40, tb_index = 12, tb_outline_geojson = Undefined,
            tb_task_status = JStr ''LOCKED_FOR_MAPPING'', tb_locked_by_uid = JNum 2,
            tb_locked_by_username = JStr ''alice'', tb_task_history = []\<rparr>]\<rparr>]
       (Some 12) (map status_name all_statuses) True (JStr ''READY'')
     = JStr ''LOCKED_FOR_MAPPING''
   \<and> \<not> popup_shows_qr (\<lambda>p. pb_id p = 7)
       [\<lparr>pb_id = 7, taskBoundries =
          [\<lparr>tb_id = 40, tb_index = 12, tb_outline_geojson = Undefined,
            tb_task_status = JStr ''LOCKED_FOR_MAPPING'', tb_locked_by_uid = JNum 2,
            tb_locked_by_username = JStr ''alice'', tb_task_history = []\<rparr>]\<rparr>]
       (Some 12) (Some (JStr ''alice'')) (JStr ''LOCKED_FOR_MAPPING'')"
  by (simp add: displayed_status_def popup_shows_qr_def qr_exposed_def js_index_def
      index_matches_def field_of_def all_statuses_def)

section \<open>Properties of DownloadTile\<close>

lemma trace_set_loading [simp]: "trace (set_loading b s) = trace s @ [SetDownloadTileLoading b]"
  by (simp add: set_loading_def emit_def)

lemma opfs_set_loading [simp]: "opfs (set_loading b s) = opfs s"
  by (simp add: set_loading_def emit_def)

lemma path_set_loading [simp]: "opfsBasemapPath (set_loading b s) = opfsBasemapPath s"
  by (simp add: set_loading_def emit_def)

lemma downloads_set_loading [simp]: "downloads (set_loading b s) = downloads s"
  by (simp add: set_loading_def emit_def)

lemma try_opfs_no_download:
  "downloads (snd (getDownloadTile_try fetch w url payload True s)) = downloads s"
  by (simp add: getDownloadTile_try_def emit_def Let_def split: sum.splits option.splits prod.splits)

text \<open>
  C9. With \<open>toOpfs = true\<close> and a fetched response, \<open>DownloadTile\<close> calls the write
  on exactly \<open>{projectId}/all.pmtiles\<close> with the fetched bytes. When the write
  completes, the file system is the one the write returned, the path is published into
  project state, and the publication comes after the write in the order of effects; when
  the write fails, nothing is published. In no case does the OPFS branch trigger a
  browser download.
\<close>

theorem DownloadTile_opfs:
  assumes "fetch url = Inr response"
    and "w (basemap_path projectId) (data response) (opfs s) = (fs', failure)"
  shows "downloads (DownloadTile fetch w url (Some projectId) True s) = downloads s
    \<and> opfs (DownloadTile fetch w url (Some projectId) True s) = fs'
    \<and> (failure = None \<longrightarrow>
          opfsBasemapPath (DownloadTile fetch w url (Some projectId) True s)
            = Some (basemap_path projectId)
          \<and> trace (DownloadTile fetch w url (Some projectId) True s)
            = trace s @ [SetDownloadTileLoading True, AxiosGet url,
                 WriteBinaryToOPFS (basemap_path projectId) (data response),
                 SetProjectOpfsBasemapPath (basemap_path projectId),
                 SetDownloadTileLoading False])
    \<and> (failure \<noteq> None \<longrightarrow>
          opfsBasemapPath (DownloadTile fetch w url (Some projectId) True s) = opfsBasemapPath s
          \<and> trace (DownloadTile fetch w url (Some projectId) True s)
            = trace s @ [SetDownloadTileLoading True, AxiosGet url,
                 WriteBinaryToOPFS (basemap_path projectId) (data response),
                 SetDownloadTileLoading False, SetDownloadTileLoading False])"
  using assms
  by (cases failure)
     (simp_all add: DownloadTile_def getDownloadTile_try_def basemap_path_def emit_def Let_def)

lemma show_nat_3: "show_nat 3 = ''3''"
  by (simp add: show_nat.simps digit_char_def)

theorem DownloadTile_opfs_witness:
  "opfs (DownloadTile
      (\<lambda>u. Inr \<lparr>data = [1, 2, 3], content_disposition = None, content_type = Undefined\<rparr>)
      (\<lambda>p d fs. (fs(p \<mapsto> d), None)) ''tiles'' (Some (JNum 3)) True
      \<lparr>opfs = Map.empty, opfsBasemapPath = None, downloadTileLoading = False,
        downloads = [], trace = []\<rparr>) ''3/all.pmtiles'' = Some [1, 2, 3]
   \<and> opfsBasemapPath (DownloadTile
      (\<lambda>u. Inr \<lparr>data = [1, 2, 3], content_disposition = None, content_type = Undefined\<rparr>)
      (\<lambda>p d fs. (fs(p \<mapsto> d), None)) ''tiles'' (Some (JNum 3)) True
      \<lparr>opfs = Map.empty, opfsBasemapPath = None, downloadTileLoading = False,
        downloads = [], trace = []\<rparr>) = Some ''3/all.pmtiles''
   \<and> downloads (DownloadTile
      (\<lambda>u. Inr \<lparr>data = [1, 2, 3], content_disposition = None, content_type = Undefined\<rparr>)
      (\<lambda>p d fs. (fs(p \<mapsto> d), None)) ''tiles'' (Some (JNum 3)) True
      \<lparr>opfs = Map.empty, opfsBasemapPath = None, downloadTileLoading = False,
        downloads = [], trace = []\<rparr>) = []"
  using DownloadTile_opfs [of
      "\<lambda>u. Inr \<lparr>data = [1, 2, 3], content_disposition = None, content_type = Undefined\<rparr>"
      "''tiles''"
      "\<lparr>data = [1, 2, 3], content_disposition = None, content_type = Undefined\<rparr>"
      "\<lambda>p d fs. (fs(p \<mapsto> d), None)" "JNum 3"
      "\<lparr>opfs = Map.empty, opfsBasemapPath = None, downloadTileLoading = False,
        downloads = [], trace = []\<rparr>"
      "Map.empty(''3/all.pmtiles'' \<mapsto> [1, 2, 3])" None]
  by (simp add: basemap_path_def to_string_def show_nat_3)

section \<open>Properties of checkStatus\<close>

lemma checkStatus_pending_step:
  "is_pending (srv (requests st)) \<Longrightarrow>
   checkStatus srv st =
   checkStatus srv (st\<lparr>requests := requests st + 1, waited_ms := waited_ms st + 2000\<rparr>)"
  by (subst checkStatus.simps) (auto simp: is_pending_def Let_def split: sum.splits)

lemma checkStatus_stop:
  "\<not> is_pending (srv (requests st)) \<Longrightarrow>
   checkStatus srv st = Some (poll_result (srv (requests st)), st\<lparr>requests := requests st + 1\<rparr>)"
  by (subst checkStatus.simps) (auto simp: is_pending_def poll_result_def Let_def split: sum.splits)

lemma checkStatus_skip:
  "(\<forall>j < k. is_pending (srv (requests st + j))) \<Longrightarrow>
   checkStatus srv st =
   checkStatus srv (st\<lparr>requests := requests st + k, waited_ms := waited_ms st + 2000 * k\<rparr>)"
proof (induction k arbitrary: st)
  case 0
  then show ?case by simp
next
  case (Suc k)
  have p0: "is_pending (srv (requests st))" using Suc.prems[rule_format, of 0] by simp
  let ?st = "st\<lparr>requests := requests st + 1, waited_ms := waited_ms st + 2000\<rparr>"
  have "\<forall>j<k. is_pending (srv (requests ?st + j))"
  proof (intro allI impI)
    fix j assume "j < k"
    then have "Suc j < Suc k" by simp
    from Suc.prems[rule_format, OF this] show "is_pending (srv (requests ?st + j))" by simp
  qed
  from Suc.IH[OF this] checkStatus_pending_step[of srv st, OF p0] show ?case
    by (simp add: add.assoc)
qed

lemma checkStatus_first_non_pending:
  assumes "\<forall>j < k. is_pending (srv j)" and "\<not> is_pending (srv k)"
  shows "checkStatus srv poll_start
         = Some (poll_result (srv k), \<lparr>requests = k + 1, waited_ms = 2000 * k\<rparr>)"
proof -
  have "\<forall>j < k. is_pending (srv (requests poll_start + j))"
    using assms(1) by (simp add: poll_start_def)
  from checkStatus_skip[OF this]
  have "checkStatus srv poll_start = checkStatus srv \<lparr>requests = k, waited_ms = 2000 * k\<rparr>"
    by (simp add: poll_start_def)
  also have "\<dots> = Some (poll_result (srv k), \<lparr>requests = k + 1, waited_ms = 2000 * k\<rparr>)"
    using checkStatus_stop[of srv "\<lparr>requests = k, waited_ms = 2000 * k\<rparr>"] assms(2) by simp
  finally show ?thesis .
qed

lemma checkStatus_Some_not_all_pending:
  assumes "checkStatus srv st = Some r"
  shows "\<exists>i. \<not> is_pending (srv i)"
proof (rule checkStatus.raw_induct
    [where P = "\<lambda>srv (st :: poll_state) r. \<exists>i. \<not> is_pending (srv i)", OF _ assms])
  fix f :: "(nat \<Rightarrow> error + resp_data) \<Rightarrow> poll_state \<Rightarrow> ((error + resp_data) \<times> poll_state) option"
  fix srv and st :: poll_state and r
  assume IH: "\<And>srv st r. f srv st = Some r \<Longrightarrow> \<exists>i. \<not> is_pending (srv i)"
    and body: "(let st1 = st\<lparr>requests := requests st + 1\<rparr> in
      case srv (requests st) of
        Inl e \<Rightarrow> Some (Inl e, st1)
      | Inr statusResponse \<Rightarrow>
          (case status_of statusResponse of
             Inl e \<Rightarrow> Some (Inl e, st1)
           | Inr sv \<Rightarrow>
               if sv = JStr ''PENDING''
               then f srv (st1\<lparr>waited_ms := waited_ms st1 + 2000\<rparr>)
               else Some (Inr statusResponse, st1))) = Some r"
  show "\<exists>i. \<not> is_pending (srv i)"
  proof (cases "is_pending (srv (requests st))")
    case True
    with body obtain st' where "f srv st' = Some r"
      by (auto simp: is_pending_def Let_def split: sum.splits if_splits)
    from IH[OF this] show ?thesis .
  next
    case False
    then show ?thesis by blast
  qed
qed

lemma checkStatus_never:
  assumes "\<forall>i. is_pending (srv i)"
  shows "checkStatus srv st = None"
  using checkStatus_Some_not_all_pending[of srv st] assms
  by (cases "checkStatus srv st") auto

lemma is_pending_pending_then:
  "is_pending (pending_then n r i) \<longleftrightarrow> i < n \<or> status_of r = Inr (JStr ''PENDING'')"
  by (simp add: is_pending_def pending_then_def)

lemma checkStatus_pending_then:
  assumes "status_of r \<noteq> Inr (JStr ''PENDING'')"
  shows "checkStatus (pending_then n r) poll_start
         = Some (poll_result (Inr r), \<lparr>requests = n + 1, waited_ms = 2000 * n\<rparr>)"
proof -
  have a: "\<forall>j < n. is_pending (pending_then n r j)"
    by (simp add: is_pending_pending_then)
  have b: "\<not> is_pending (pending_then n r n)"
    using assms by (simp add: is_pending_pending_then)
  have c: "pending_then n r n = Inr r"
    by (simp add: pending_then_def)
  from checkStatus_first_non_pending[OF a b] show ?thesis
    unfolding c .
qed

text \<open>
  The claim as the specification words it fails: after one \<open>PENDING\<close> answer the server
  sends the bare download link, whose \<open>.status\<close> is \<open>undefined\<close>; the loop stops there
  although the status is neither \<open>SUCCESS\<close> nor \<open>FAILED\<close>, and the thunk uses the
  response itself as the link of the download.
\<close>

theorem checkStatus_stops_on_other_status:
  "checkStatus (pending_then 1 (RStr ''https://fmtm.example/submissions.zip'')) poll_start
     = Some (Inr (RStr ''https://fmtm.example/submissions.zip''),
             \<lparr>requests = 2, waited_ms = 2000\<rparr>)
   \<and> status_of (RStr ''https://fmtm.example/submissions.zip'') \<noteq> Inr (JStr ''SUCCESS'')
   \<and> status_of (RStr ''https://fmtm.example/submissions.zip'') \<noteq> Inr (JStr ''FAILED'')
   \<and> getDownloadProjectSubmissionJson
        (Inr \<lparr>Message = JStr ''started'', task_id = JStr ''t1''\<rparr>)
        (\<lambda>t. pending_then 1 (RStr ''https://fmtm.example/submissions.zip''))
     = Some ([JsonLoading True, SnackBar (JStr ''started'') ''success'' 3000,
              AnchorDownload (RStr ''https://fmtm.example/submissions.zip''),
              JsonLoading False, JsonLoading False],
             \<lparr>requests = 2, waited_ms = 2000\<rparr>)"
proof -
  have c: "checkStatus (pending_then 1 (RStr ''https://fmtm.example/submissions.zip'')) poll_start
     = Some (Inr (RStr ''https://fmtm.example/submissions.zip''),
             \<lparr>requests = 2, waited_ms = 2000\<rparr>)"
    using checkStatus_pending_then[of "RStr ''https://fmtm.example/submissions.zip''" 1]
    by (simp add: poll_result_def)
  then show ?thesis
    by (simp add: getDownloadProjectSubmissionJson_def)
qed

text \<open>
  C5, as the code has it. \<open>checkStatus\<close> has no attempt bound and no timeout error: it
  returns exactly when some response is not \<open>PENDING\<close> (a failed request included), and
  when the first such response is the \<open>k\<close>-th (counted from 0) it has posted \<open>k + 1\<close>
  requests and waited \<open>2000 * k\<close> ms, whatever \<open>k\<close> is; against a server that always
  answers \<open>PENDING\<close> it never returns.
\<close>

theorem checkStatus_terminates_iff:
  "(checkStatus srv poll_start \<noteq> None \<longleftrightarrow> (\<exists>k. \<not> is_pending (srv k)))
   \<and> ((\<forall>j < k. is_pending (srv j)) \<and> \<not> is_pending (srv k) \<longrightarrow>
        checkStatus srv poll_start
        = Some (poll_result (srv k), \<lparr>requests = k + 1, waited_ms = 2000 * k\<rparr>))"
proof (intro conjI iffI impI)
  assume "checkStatus srv poll_start \<noteq> None"
  then obtain r where "checkStatus srv poll_start = Some r" by auto
  from checkStatus_Some_not_all_pending[OF this] show "\<exists>k. \<not> is_pending (srv k)" .
next
  assume "\<exists>k. \<not> is_pending (srv k)"
  then obtain m where m: "\<not> is_pending (srv m)" and least: "\<forall>j < m. is_pending (srv j)"
    using exists_least_iff[of "\<lambda>k. \<not> is_pending (srv k)"] by auto
  from checkStatus_first_non_pending[OF least m] show "checkStatus srv poll_start \<noteq> None"
    by simp
next
  assume "(\<forall>j < k. is_pending (srv j)) \<and> \<not> is_pending (srv k)"
  then show "checkStatus srv poll_start
        = Some (poll_result (srv k), \<lparr>requests = k + 1, waited_ms = 2000 * k\<rparr>)"
    using checkStatus_first_non_pending[of k srv] by blast
qed

theorem checkStatus_terminates_iff_witness:
  "checkStatus (pending_then 3 (RObj (JStr ''SUCCESS'') Undefined)) poll_start
   = Some (Inr (RObj (JStr ''SUCCESS'') Undefined), \<lparr>requests = 4, waited_ms = 6000\<rparr>)"
proof -
  let ?srv = "pending_then 3 (RObj (JStr ''SUCCESS'') Undefined)"
  have h: "(\<forall>j < 3. is_pending (?srv j)) \<and> \<not> is_pending (?srv 3)"
    by (simp add: is_pending_pending_then)
  have e: "poll_result (?srv 3) = Inr (RObj (JStr ''SUCCESS'') Undefined)"
    by (simp add: pending_then_def poll_result_def)
  from checkStatus_terminates_iff [of ?srv 3] h
  have "checkStatus ?srv poll_start
        = Some (poll_result (?srv 3), \<lparr>requests = 3 + 1, waited_ms = 2000 * 3\<rparr>)"
    by blast
  then show ?thesis unfolding e by simp
qed

text \<open>
  The claim as the specification words it fails: with \<open>maxAttempts = 30\<close> in mind, a job
  that is \<open>PENDING\<close> for 30 polls and then succeeds is polled a 31st time and returned,
  with no timeout; and a job that stays \<open>PENDING\<close> is polled forever.
\<close>

theorem checkStatus_no_attempt_bound:
  "checkStatus (pending_then 30 (RObj (JStr ''SUCCESS'') Undefined)) poll_start
     = Some (Inr (RObj (JStr ''SUCCESS'') Undefined), \<lparr>requests = 31, waited_ms = 60000\<rparr>)
   \<and> checkStatus (\<lambda>i. Inr (RObj (JStr ''PENDING'') Undefined)) poll_start = None
   \<and> getDownloadProjectSubmissionJson
        (Inr \<lparr>Message = JStr ''started'', task_id = JStr ''t1''\<rparr>)
        (\<lambda>t i. Inr (RObj (JStr ''PENDING'') Undefined)) = None"
proof -
  have a: "checkStatus (pending_then 30 (RObj (JStr ''SUCCESS'') Undefined)) poll_start
     = Some (Inr (RObj (JStr ''SUCCESS'') Undefined), \<lparr>requests = 31, waited_ms = 60000\<rparr>)"
    using checkStatus_pending_then[of "RObj (JStr ''SUCCESS'') Undefined" 30]
    by (simp add: poll_result_def)
  have b: "checkStatus (\<lambda>i. Inr (RObj (JStr ''PENDING'') Undefined)) poll_start = None"
    by (rule checkStatus_never) (simp add: is_pending_def)
  from a b show ?thesis by (simp add: getDownloadProjectSubmissionJson_def)
qed

section \<open>Properties of the project log poller\<close>

lemma run_Nil [simp]: "run s [] = s"
  by (simp add: run_def)

lemma run_Cons [simp]: "run s (ev # evs) = run (step s ev) evs"
  by (simp add: run_def)

lemma run_append: "run s (xs @ ys) = run (run s xs) ys"
  by (simp add: run_def)

lemma owns_qr_effect: "handle_owns_timers s \<Longrightarrow> handle_owns_timers (qr_effect s)"
  by (auto simp: handle_owns_timers_def qr_effect_def GenerateProjectLog_def split: option.splits)

lemma owns_clearInterval:
  "handle_owns_timers s \<Longrightarrow> timers (clearInterval (generateProjectLogIntervalCb s) s) = Map.empty"
proof (cases "generateProjectLogIntervalCb s")
  case None
  assume "handle_owns_timers s"
  with None have "timers s = Map.empty" by (simp add: handle_owns_timers_def)
  with None show ?thesis by (simp add: clearInterval_def)
next
  case (Some h)
  assume "handle_owns_timers s"
  with Some have sub: "dom (timers s) \<subseteq> {h}" by (simp add: handle_owns_timers_def)
  have "(timers s)(h := None) = Map.empty"
  proof (rule ext)
    fix x
    show "((timers s)(h := None)) x = None"
    proof (cases "x = h")
      case True
      then show ?thesis by simp
    next
      case False
      with sub have "x \<notin> dom (timers s)" by blast
      then have "timers s x = None" by (cases "timers s x") auto
      with False show ?thesis by simp
    qed
  qed
  with Some show ?thesis by (simp add: clearInterval_def)
qed

lemma handle_clearInterval [simp]:
  "generateProjectLogIntervalCb (clearInterval h s) = generateProjectLogIntervalCb s"
  by (simp add: clearInterval_def split: option.splits)

lemma owns_log_effect: "handle_owns_timers s \<Longrightarrow> handle_owns_timers (log_effect s)"
proof -
  assume inv: "handle_owns_timers s"
  note e = owns_clearInterval[OF inv]
  show ?thesis
  proof (cases "generateQrSuccess s")
    case None
    with inv show ?thesis by (simp add: log_effect_def)
  next
    case (Some tid)
    show ?thesis
    proof (cases "generateProjectLogIntervalCb s")
      case None
      with inv have "timers s = Map.empty"
        by (auto simp: handle_owns_timers_def)
      with Some None e show ?thesis
        by (auto simp: log_effect_def Let_def handle_owns_timers_def SetSnackBar_def
            setInterval_def split: if_splits)
    next
      case (Some h)
      with \<open>generateQrSuccess s = Some tid\<close> inv e show ?thesis
        by (auto simp: log_effect_def Let_def handle_owns_timers_def SetSnackBar_def
            split: if_splits)
    qed
  qed
qed

lemma owns_tick: "handle_owns_timers s \<Longrightarrow> handle_owns_timers (tick i s)"
  by (auto simp: handle_owns_timers_def tick_def GenerateProjectLog_def split: option.splits)

lemma owns_teardown: "handle_owns_timers s \<Longrightarrow> handle_owns_timers (teardown s)"
  using owns_clearInterval[of s] by (simp add: handle_owns_timers_def teardown_def)

lemma owns_step: "handle_owns_timers s \<Longrightarrow> handle_owns_timers (step s ev)"
  by (cases ev) (auto simp: owns_qr_effect owns_log_effect owns_tick owns_teardown,
      auto simp: handle_owns_timers_def)

lemma owns_run: "handle_owns_timers s \<Longrightarrow> handle_owns_timers (run s evs)"
  by (induction evs arbitrary: s) (auto simp: owns_step)

lemma owns_init: "handle_owns_timers (split_tasks_init pid)"
  by (simp add: handle_owns_timers_def split_tasks_init_def)





lemma unmounted_step:
  assumes "\<not> mounted s" and "timers s = Map.empty" and "ev \<noteq> Mount"
  shows "\<not> mounted (step s ev) \<and> timers (step s ev) = Map.empty
       \<and> log_requests (step s ev) = log_requests s
       \<and> generateProjectLogIntervalCb (step s ev) = generateProjectLogIntervalCb s
       \<and> next_timer (step s ev) = next_timer s
       \<and> projectDetailsResponse_id (step s ev) = projectDetailsResponse_id s"
  using assms by (cases ev) (auto simp: tick_def)

lemma unmounted_run:
  assumes "\<not> mounted s" and "timers s = Map.empty" and "Mount \<notin> set evs"
  shows "\<not> mounted (run s evs) \<and> timers (run s evs) = Map.empty
       \<and> log_requests (run s evs) = log_requests s
       \<and> generateProjectLogIntervalCb (run s evs) = generateProjectLogIntervalCb s
       \<and> next_timer (run s evs) = next_timer s
       \<and> projectDetailsResponse_id (run s evs) = projectDetailsResponse_id s"
  using assms
proof (induction evs arbitrary: s)
  case Nil
  then show ?case by simp
next
  case (Cons ev evs)
  from Cons.prems have ne: "ev \<noteq> Mount" and rest: "Mount \<notin> set evs" by auto
  note st = unmounted_step[OF Cons.prems(1) Cons.prems(2) ne]
  from Cons.IH[of "step s ev"] st rest show ?case by simp
qed

lemma teardown_clears:
  assumes "handle_owns_timers s"
  shows "timers (teardown s) = Map.empty \<and> generateProjectLogIntervalCb (teardown s) = None
       \<and> generateProjectLog (teardown s) = None \<and> \<not> mounted (teardown s)
       \<and> log_requests (teardown s) = log_requests s
       \<and> next_timer (teardown s) = next_timer s
       \<and> projectDetailsResponse_id (teardown s) = projectDetailsResponse_id s"
  using owns_clearInterval[OF assms]
  by (simp add: teardown_def clearInterval_def split: option.splits)

lemma log_effect_starts_interval:
  assumes "generateProjectLogIntervalCb s = None" and "timers s = Map.empty"
    and "generateQrSuccess s = Some tid"
    and "generateProjectLog s = Some \<lparr>log_status = JStr ''PENDING'', log_message = m\<rparr>"
  shows "timers (log_effect s)
         = [next_timer s \<mapsto> (2000, \<lparr>project_id = projectDetailsResponse_id s, uuid = tid\<rparr>)]
       \<and> generateProjectLogIntervalCb (log_effect s) = Some (next_timer s)"
  using assms by (simp add: log_effect_def field_of_def setInterval_def)

text \<open>
  C6. When the view is torn down in any reachable state, the live interval is cancelled
  and the shared handle and the stored log are reset. From then on, as long as the view
  is not mounted again, nothing that happens issues a log request and no interval comes
  alive. After a new mount the next \<open>PENDING\<close> log starts a fresh interval of 2000 ms.
\<close>

theorem teardown_stops_polling:
  assumes "s = run (split_tasks_init pid) evs0" and "mounted s" and "Mount \<notin> set evs"
  shows "timers (step s Unmount) = Map.empty
       \<and> generateProjectLogIntervalCb (step s Unmount) = None
       \<and> generateProjectLog (step s Unmount) = None
       \<and> log_requests (run (step s Unmount) evs) = log_requests s
       \<and> timers (run (step s Unmount) evs) = Map.empty
       \<and> timers (run (step s Unmount)
            (evs @ [Mount, StoreQrSuccess (Some tid),
                   StoreProjectLog (Some \<lparr>log_status = JStr ''PENDING'', log_message = m\<rparr>),
                   LogEffect]))
          = [next_timer s \<mapsto> (2000, \<lparr>project_id = projectDetailsResponse_id s, uuid = tid\<rparr>)]"
proof -
  have inv: "handle_owns_timers s"
    unfolding assms(1) by (rule owns_run[OF owns_init])
  let ?u = "step s Unmount"
  have u: "?u = teardown s" using assms(2) by simp
  note c = teardown_clears[OF inv]
  from c have nm: "\<not> mounted ?u" and te: "timers ?u = Map.empty" unfolding u by simp_all
  note r = unmounted_run[OF nm te assms(3)]
  let ?v = "run ?u evs"
  let ?w = "step (step (step ?v Mount) (StoreQrSuccess (Some tid)))
              (StoreProjectLog (Some \<lparr>log_status = JStr ''PENDING'', log_message = m\<rparr>))"
  from r c have w: "generateProjectLogIntervalCb ?w = None" "timers ?w = Map.empty"
    "generateQrSuccess ?w = Some tid"
    "generateProjectLog ?w = Some \<lparr>log_status = JStr ''PENDING'', log_message = m\<rparr>"
    "mounted ?w" "next_timer ?w = next_timer s"
    "projectDetailsResponse_id ?w = projectDetailsResponse_id s"
    unfolding u by simp_all
  from log_effect_starts_interval[OF w(1-4)] w(5-7)
  have fresh: "timers (step ?w LogEffect)
      = [next_timer s \<mapsto> (2000, \<lparr>project_id = projectDetailsResponse_id s, uuid = tid\<rparr>)]"
    by simp
  have "run ?u (evs @ [Mount, StoreQrSuccess (Some tid),
                   StoreProjectLog (Some \<lparr>log_status = JStr ''PENDING'', log_message = m\<rparr>),
                   LogEffect]) = step ?w LogEffect"
    by (simp add: run_append)
  with fresh r c show ?thesis unfolding u by simp
qed

theorem teardown_stops_polling_witness:
  "timers (run (split_tasks_init (JNum 3))
      [Mount, StoreQrSuccess (Some (JStr ''u1'')), QrEffect,
       StoreProjectLog (Some \<lparr>log_status = JStr ''PENDING'', log_message = Undefined\<rparr>),
       LogEffect, Tick 1]) 1
     = Some (2000, \<lparr>project_id = JNum 3, uuid = JStr ''u1''\<rparr>)
   \<and> log_requests (run (split_tasks_init (JNum 3))
      [Mount, StoreQrSuccess (Some (JStr ''u1'')), QrEffect,
       StoreProjectLog (Some \<lparr>log_status = JStr ''PENDING'', log_message = Undefined\<rparr>),
       LogEffect, Tick 1])
     = [\<lparr>project_id = JNum 3, uuid = JStr ''u1''\<rparr>, \<lparr>project_id = JNum 3, uuid = JStr ''u1''\<rparr>]
   \<and> log_requests (run (step (run (split_tasks_init (JNum 3))
      [Mount, StoreQrSuccess (Some (JStr ''u1'')), QrEffect,
       StoreProjectLog (Some \<lparr>log_status = JStr ''PENDING'', log_message = Undefined\<rparr>),
       LogEffect, Tick 1]) Unmount)
      [Tick 1, StoreProjectLog (Some \<lparr>log_status = JStr ''PENDING'', log_message = Undefined\<rparr>),
       LogEffect, QrEffect, Tick 1])
     = [\<lparr>project_id = JNum 3, uuid = JStr ''u1''\<rparr>, \<lparr>project_id = JNum 3, uuid = JStr ''u1''\<rparr>]"
proof -
  let ?before = "[Mount, StoreQrSuccess (Some (JStr ''u1'')), QrEffect,
       StoreProjectLog (Some \<lparr>log_status = JStr ''PENDING'', log_message = Undefined\<rparr>),
       LogEffect, Tick 1]"
  let ?after = "[Tick 1, StoreProjectLog (Some \<lparr>log_status = JStr ''PENDING'', log_message = Undefined\<rparr>),
       LogEffect, QrEffect, Tick 1]"
  let ?s = "run (split_tasks_init (JNum 3)) ?before"
  note defs = split_tasks_init_def qr_effect_def log_effect_def GenerateProjectLog_def
        field_of_def setInterval_def tick_def
  have m: "mounted ?s" by (simp add: defs)
  have t: "timers ?s 1 = Some (2000, \<lparr>project_id = JNum 3, uuid = JStr ''u1''\<rparr>)"
    by (simp add: defs)
  have l: "log_requests ?s
      = [\<lparr>project_id = JNum 3, uuid = JStr ''u1''\<rparr>, \<lparr>project_id = JNum 3, uuid = JStr ''u1''\<rparr>]"
    by (simp add: defs)
  have n: "Mount \<notin> set ?after" by simp
  from teardown_stops_polling[OF refl m n, of "JStr ''u2''" Undefined]
  have "log_requests (run (step ?s Unmount) ?after) = log_requests ?s" by blast
  with t l show ?thesis by simp
qed

lemma log_effect_clears_iff_terminal:
  assumes "handle_owns_timers s" and "generateQrSuccess s = Some tid"
  shows "(field_of log_status (generateProjectLog s) = JStr ''FAILED''
          \<or> field_of log_status (generateProjectLog s) = JStr ''SUCCESS''
          \<longrightarrow> timers (log_effect s) = Map.empty)
       \<and> (field_of log_status (generateProjectLog s) \<noteq> JStr ''FAILED''
          \<and> field_of log_status (generateProjectLog s) \<noteq> JStr ''SUCCESS''
          \<longrightarrow> (\<forall>i. timers s i \<noteq> None \<longrightarrow> timers (log_effect s) i = timers s i))"
proof (intro conjI impI)
  assume "field_of log_status (generateProjectLog s) = JStr ''FAILED''
          \<or> field_of log_status (generateProjectLog s) = JStr ''SUCCESS''"
  with assms(2) owns_clearInterval[OF assms(1)] show "timers (log_effect s) = Map.empty"
    by (auto simp: log_effect_def Let_def SetSnackBar_def)
next
  assume n: "field_of log_status (generateProjectLog s) \<noteq> JStr ''FAILED''
          \<and> field_of log_status (generateProjectLog s) \<noteq> JStr ''SUCCESS''"
  show "\<forall>i. timers s i \<noteq> None \<longrightarrow> timers (log_effect s) i = timers s i"
  proof (cases "generateProjectLogIntervalCb s")
    case None
    with assms(1) have "timers s = Map.empty" by (simp add: handle_owns_timers_def)
    then show ?thesis by simp
  next
    case (Some h)
    with n assms(2) show ?thesis by (simp add: log_effect_def Let_def)
  qed
qed

lemma log_effect_without_success_record: "generateQrSuccess s = None \<Longrightarrow> log_effect s = s"
  by (simp add: log_effect_def)

text \<open>
  C4, as the code has it. At every response the loop of \<open>checkStatus\<close> goes on, after
  waiting 2000 ms, when the status is \<open>'PENDING'\<close>, and returns that response when the
  status is anything else: \<open>'SUCCESS'\<close> and \<open>'FAILED'\<close> stop it, and so does every
  other status. A \<open>PENDING\<close> response never ends the poll. The log poller of SplitTasks
  acts only while the success record \<open>generateQrSuccess\<close> is set. Then, in every
  reachable state (where the module's handle names every live interval), it clears its
  interval exactly on \<open>'FAILED'\<close> and \<open>'SUCCESS'\<close>: on any other status a live interval
  stays as it is. Without a success record the effect does nothing, whatever the status.
\<close>

theorem pollers_stop_rule:
  "(srv (requests st) = Inr r \<and> status_of r = Inr sv \<longrightarrow>
      (sv = JStr ''PENDING'' \<longrightarrow>
         checkStatus srv st =
         checkStatus srv (st\<lparr>requests := requests st + 1, waited_ms := waited_ms st + 2000\<rparr>))
      \<and> (sv \<noteq> JStr ''PENDING'' \<longrightarrow>
         checkStatus srv st = Some (Inr r, st\<lparr>requests := requests st + 1\<rparr>))
      \<and> (sv = JStr ''SUCCESS'' \<or> sv = JStr ''FAILED'' \<longrightarrow>
         checkStatus srv st = Some (Inr r, st\<lparr>requests := requests st + 1\<rparr>)))
   \<and> (handle_owns_timers s \<and> generateQrSuccess s = Some tid \<longrightarrow>
      (field_of log_status (generateProjectLog s) = JStr ''FAILED''
       \<or> field_of log_status (generateProjectLog s) = JStr ''SUCCESS''
       \<longrightarrow> timers (log_effect s) = Map.empty)
      \<and> (field_of log_status (generateProjectLog s) \<noteq> JStr ''FAILED''
         \<and> field_of log_status (generateProjectLog s) \<noteq> JStr ''SUCCESS''
         \<longrightarrow> (\<forall>i. timers s i \<noteq> None \<longrightarrow> timers (log_effect s) i = timers s i)))
   \<and> handle_owns_timers (run (split_tasks_init pid) evs)
   \<and> (generateQrSuccess s = None \<longrightarrow> log_effect s = s)"
proof (intro conjI)
  show "srv (requests st) = Inr r \<and> status_of r = Inr sv \<longrightarrow>
      (sv = JStr ''PENDING'' \<longrightarrow>
         checkStatus srv st =
         checkStatus srv (st\<lparr>requests := requests st + 1, waited_ms := waited_ms st + 2000\<rparr>))
      \<and> (sv \<noteq> JStr ''PENDING'' \<longrightarrow>
         checkStatus srv st = Some (Inr r, st\<lparr>requests := requests st + 1\<rparr>))
      \<and> (sv = JStr ''SUCCESS'' \<or> sv = JStr ''FAILED'' \<longrightarrow>
         checkStatus srv st = Some (Inr r, st\<lparr>requests := requests st + 1\<rparr>))"
  proof
    assume a: "srv (requests st) = Inr r \<and> status_of r = Inr sv"
    have p: "is_pending (srv (requests st)) \<longleftrightarrow> sv = JStr ''PENDING''"
      using a by (simp add: is_pending_def)
    have r: "poll_result (srv (requests st)) = Inr r"
      using a by (simp add: poll_result_def)
    from p r checkStatus_pending_step[of srv st] checkStatus_stop[of srv st]
    show "(sv = JStr ''PENDING'' \<longrightarrow>
         checkStatus srv st =
         checkStatus srv (st\<lparr>requests := requests st + 1, waited_ms := waited_ms st + 2000\<rparr>))
      \<and> (sv \<noteq> JStr ''PENDING'' \<longrightarrow>
         checkStatus srv st = Some (Inr r, st\<lparr>requests := requests st + 1\<rparr>))
      \<and> (sv = JStr ''SUCCESS'' \<or> sv = JStr ''FAILED'' \<longrightarrow>
         checkStatus srv st = Some (Inr r, st\<lparr>requests := requests st + 1\<rparr>))"
      by auto
  qed
next
  show "handle_owns_timers s \<and> generateQrSuccess s = Some tid \<longrightarrow>
      (field_of log_status (generateProjectLog s) = JStr ''FAILED''
       \<or> field_of log_status (generateProjectLog s) = JStr ''SUCCESS''
       \<longrightarrow> timers (log_effect s) = Map.empty)
      \<and> (field_of log_status (generateProjectLog s) \<noteq> JStr ''FAILED''
         \<and> field_of log_status (generateProjectLog s) \<noteq> JStr ''SUCCESS''
         \<longrightarrow> (\<forall>i. timers s i \<noteq> None \<longrightarrow> timers (log_effect s) i = timers s i))"
    using log_effect_clears_iff_terminal[of s tid] by blast
next
  show "handle_owns_timers (run (split_tasks_init pid) evs)"
    by (rule owns_run[OF owns_init])
next
  show "generateQrSuccess s = None \<longrightarrow> log_effect s = s"
    by (simp add: log_effect_without_success_record)
qed

theorem pollers_stop_rule_witness:
  "checkStatus (pending_then 0 (RObj (JStr ''FAILED'') (JStr ''export failed''))) poll_start
   = Some (Inr (RObj (JStr ''FAILED'') (JStr ''export failed'')),
           \<lparr>requests = 1, waited_ms = 0\<rparr>)
   \<and> timers (run (split_tasks_init (JNum 3))
        [Mount, StoreQrSuccess (Some (JStr ''u1'')), QrEffect,
         StoreProjectLog (Some \<lparr>log_status = JStr ''PENDING'', log_message = Undefined\<rparr>),
         LogEffect,
         StoreProjectLog (Some \<lparr>log_status = JStr ''SUCCESS'', log_message = Undefined\<rparr>)]) 1
     = Some (2000, \<lparr>project_id = JNum 3, uuid = JStr ''u1''\<rparr>)
   \<and> timers (log_effect (run (split_tasks_init (JNum 3))
        [Mount, StoreQrSuccess (Some (JStr ''u1'')), QrEffect,
         StoreProjectLog (Some \<lparr>log_status = JStr ''PENDING'', log_message = Undefined\<rparr>),
         LogEffect,
         StoreProjectLog (Some \<lparr>log_status = JStr ''SUCCESS'', log_message = Undefined\<rparr>)]))
     = Map.empty"
proof -
  let ?srv = "pending_then 0 (RObj (JStr ''FAILED'') (JStr ''export failed''))"
  let ?trace = "[Mount, StoreQrSuccess (Some (JStr ''u1'')), QrEffect,
         StoreProjectLog (Some \<lparr>log_status = JStr ''PENDING'', log_message = Undefined\<rparr>),
         LogEffect,
         StoreProjectLog (Some \<lparr>log_status = JStr ''SUCCESS'', log_message = Undefined\<rparr>)]"
  let ?s = "run (split_tasks_init (JNum 3)) ?trace"
  note defs = split_tasks_init_def qr_effect_def log_effect_def GenerateProjectLog_def
        field_of_def setInterval_def tick_def
  have a: "?srv (requests poll_start) = Inr (RObj (JStr ''FAILED'') (JStr ''export failed''))
        \<and> status_of (RObj (JStr ''FAILED'') (JStr ''export failed'')) = Inr (JStr ''FAILED'')"
    by (simp add: pending_then_def)
  have q: "generateQrSuccess ?s = Some (JStr ''u1'')" by (simp add: defs)
  have c: "field_of log_status (generateProjectLog ?s) = JStr ''SUCCESS''" by (simp add: defs)
  have t: "timers ?s 1 = Some (2000, \<lparr>project_id = JNum 3, uuid = JStr ''u1''\<rparr>)"
    by (simp add: defs)
  note th = pollers_stop_rule[where srv = ?srv and st = poll_start
      and r = "RObj (JStr ''FAILED'') (JStr ''export failed'')" and sv = "JStr ''FAILED''"
      and s = ?s and tid = "JStr ''u1''" and pid = "JNum 3" and evs = ?trace]
  from th a have "checkStatus ?srv poll_start
          = Some (Inr (RObj (JStr ''FAILED'') (JStr ''export failed'')),
                  poll_start\<lparr>requests := requests poll_start + 1\<rparr>)"
    by blast
  moreover from th q c have "timers (log_effect ?s) = Map.empty"
    by blast
  ultimately show ?thesis using t by (simp add: poll_start_def)
qed

section \<open>Properties of the lock coordinator\<close>

lemma holder_after_locked:
  "holder_after from to h a = Some h' \<Longrightarrow>
   (h' \<noteq> None) = (to = LOCKED_FOR_MAPPING \<or> to = LOCKED_FOR_VALIDATION)"
  by (cases "from"; cases "to"; auto split: if_splits)

lemma lookup_code: "task_status_lookup (JNum (status_code s)) = JStr (status_name s)"
  by (cases s) (simp_all add: task_status_lookup_def all_statuses_def)

lemma lookup_numeric_key: "task_status_lookup (JStr ''1'') = JStr ''LOCKED_FOR_MAPPING''"
  by (simp add: task_status_lookup_def all_statuses_def to_string_def show_nat.simps digit_char_def)

lemma label_roundtrip: "status_of_label (JStr (status_name s)) = Some s"
  by (cases s) (simp_all add: status_of_label_def all_statuses_def)

lemma status_name_mapping: "status_name s = ''LOCKED_FOR_MAPPING'' \<longleftrightarrow> s = LOCKED_FOR_MAPPING"
  by (cases s) simp_all

lemma status_name_validation:
  "status_name s = ''LOCKED_FOR_VALIDATION'' \<longleftrightarrow> s = LOCKED_FOR_VALIDATION"
  by (cases s) simp_all

lemma persisted_consistent:
  "registry_lock_consistent (persistingValues (encode_task t)) = lock_consistent t"
  by (cases "lockedBy t")
     (simp_all add: registry_lock_consistent_def lock_consistent_def persistingValues_def
        encode_task_def lookup_code status_name_mapping status_name_validation)

lemma post_status_consistent:
  assumes "list_all lock_consistent (tasks srv)"
  shows "list_all lock_consistent (tasks (snd (post_status srv a n from to)))"
proof (cases "find (\<lambda>t. taskIndex t = n) (tasks srv)")
  case None
  with assms show ?thesis by (simp add: post_status_def)
next
  case (Some t)
  show ?thesis
  proof (cases "status t \<noteq> from \<or> holder_after from to (lockedBy t) a = None")
    case True
    with Some assms show ?thesis by (auto simp: post_status_def)
  next
    case False
    then obtain h where h: "holder_after from to (lockedBy t) a = Some h" and f: "status t = from"
      by auto
    let ?t' = "t\<lparr>status := to, lockedBy := h,
                 history := history t @
                   [\<lparr>actor = a, fromStatus = from, toStatus = to, timestamp = now srv\<rparr>]\<rparr>"
    have "lock_consistent ?t'"
      using holder_after_locked[OF h] by (simp add: lock_consistent_def)
    with assms have "list_all lock_consistent (map (\<lambda>u. if taskIndex u = n then ?t' else u) (tasks srv))"
      by (induction "tasks srv") (auto simp: list_all_iff)
    with Some h f show ?thesis by (simp add: post_status_def Let_def)
  qed
qed


lemma refresh_consistent:
  "list_all lock_consistent (tasks srv) \<Longrightarrow>
   list_all (\<lambda>p. list_all registry_lock_consistent (taskBoundries p)) (refreshActivity srv)"
  by (simp add: refreshActivity_def ProjectById_def get_project_def list_all_iff
      persisted_consistent)

lemma registry_put_consistent:
  assumes "list_all (\<lambda>p. list_all registry_lock_consistent (taskBoundries p)) reg"
    and "lock_consistent t'"
  shows "list_all (\<lambda>p. list_all registry_lock_consistent (taskBoundries p)) (registry_put reg t')"
  using assms
  by (cases reg) (auto simp: registry_put_def list_all_iff persisted_consistent)

lemma post_status_ok_consistent:
  assumes "list_all lock_consistent (tasks srv)" and "post_status srv a n from to = (Ok200 t', srv')"
  shows "lock_consistent t'"
proof -
  from assms(2) obtain t h where t: "find (\<lambda>t. taskIndex t = n) (tasks srv) = Some t"
    and h: "holder_after from to (lockedBy t) a = Some h"
    and t': "t' = t\<lparr>status := to, lockedBy := h,
                 history := history t @
                   [\<lparr>actor = a, fromStatus = from, toStatus = to, timestamp = now srv\<rparr>]\<rparr>"
    by (auto simp: post_status_def Let_def split: option.splits if_splits)
  from holder_after_locked[OF h] show ?thesis unfolding t' by (simp add: lock_consistent_def)
qed

lemma claim_consistent:
  assumes "device_consistent d"
  shows "device_consistent (coordinate d (Claim n target))"
proof -
  from assms have s: "list_all lock_consistent (tasks (server d))"
    and r: "list_all (\<lambda>p. list_all registry_lock_consistent (taskBoundries p)) (registry d)"
    by (simp_all add: device_consistent_def)
  show ?thesis
  proof (cases "claim_request (registry d) n target")
    case None
    with s refresh_consistent[OF s] show ?thesis
      by (simp add: claim_def device_consistent_def)
  next
    case (Some ft)
    obtain f t where ft: "ft = (f, t)" by (cases ft)
    obtain rep srv' where p: "post_status (server d) (user d) n f t = (rep, srv')"
      by (cases "post_status (server d) (user d) n f t")
    from post_status_consistent[OF s, of "user d" n f t] p
    have s': "list_all lock_consistent (tasks srv')" by simp
    show ?thesis
    proof (cases rep)
      case (Ok200 t')
      from post_status_ok_consistent[OF s p[unfolded Ok200]] have "lock_consistent t'" .
      from registry_put_consistent[OF r this] s' Some ft p Ok200 show ?thesis
        by (simp add: claim_def device_consistent_def)
    next
      case (Conflict409 c)
      with refresh_consistent[OF s'] s' Some ft p show ?thesis
        by (simp add: claim_def device_consistent_def)
    next
      case NotFound404
      with refresh_consistent[OF s'] s' Some ft p show ?thesis
        by (simp add: claim_def device_consistent_def)
    qed
  qed
qed

lemma coordinate_consistent:
  assumes "device_consistent d"
  shows "device_consistent (coordinate d c)"
proof (cases c)
  case (Remote a n f t)
  with assms post_status_consistent[of "server d" a n f t] show ?thesis
    by (simp add: device_consistent_def)
next
  case (Claim n target)
  with claim_consistent[OF assms] show ?thesis by simp
next
  case Refresh
  with assms refresh_consistent[of "server d"] show ?thesis
    by (simp add: device_consistent_def)
qed

lemma coordinate_all_consistent:
  "device_consistent d \<Longrightarrow> device_consistent (foldl coordinate d cs)"
  by (induction cs arbitrary: d) (simp_all add: coordinate_consistent)

lemma new_project_consistent: "list_all lock_consistent (tasks (new_project pid ns))"
  by (simp add: new_project_def list_all_iff lock_consistent_def)

lemma new_device_consistent: "device_consistent (new_device a (new_project pid ns))"
  using new_project_consistent[of pid ns] refresh_consistent[OF new_project_consistent[of pid ns]]
  by (simp add: device_consistent_def new_device_def)

text \<open>
  C2. A freshly created project is consistent; every operation (a request of another
  device at the authority, a claim of this device, a refresh) keeps the authority's
  tasks and the registry consistent: a task has a lock holder exactly when its status
  is \<open>LOCKED_FOR_MAPPING\<close> or \<open>LOCKED_FOR_VALIDATION\<close>, on the authority as
  \<open>lockedBy\<close> and in the registry as \<open>locked_by_username\<close>. So the invariant holds
  in every reachable state. A task has at most one holder.
\<close>

theorem lock_holder_iff_locked_status:
  "device_consistent (new_device a (new_project pid ns))
   \<and> (device_consistent d \<longrightarrow> device_consistent (coordinate d c))
   \<and> device_consistent (foldl coordinate (new_device a (new_project pid ns)) cs)
   \<and> card {x. lockedBy t = Some x} \<le> 1"
proof -
  have "{x. lockedBy t = Some x} = set_option (lockedBy t)"
    by (cases "lockedBy t") auto
  then have "card {x. lockedBy t = Some x} \<le> 1"
    by (cases "lockedBy t") auto
  with new_device_consistent coordinate_consistent
    coordinate_all_consistent[OF new_device_consistent]
  show ?thesis by blast
qed


theorem lock_holder_iff_locked_status_witness:
  "device_consistent (foldl coordinate (new_device ''alice'' (new_project 3 [12]))
      [Claim 12 LOCKED_FOR_MAPPING, Remote ''bob'' 12 READY LOCKED_FOR_MAPPING,
       Claim 12 MAPPED, Remote ''carol'' 12 MAPPED LOCKED_FOR_VALIDATION, Refresh])
   \<and> map (\<lambda>t. (status t, lockedBy t))
        (tasks (server (foldl coordinate (new_device ''alice'' (new_project 3 [12]))
      [Claim 12 LOCKED_FOR_MAPPING, Remote ''bob'' 12 READY LOCKED_FOR_MAPPING,
       Claim 12 MAPPED, Remote ''carol'' 12 MAPPED LOCKED_FOR_VALIDATION, Refresh])))
     = [(LOCKED_FOR_VALIDATION, Some ''carol'')]
   \<and> map (\<lambda>u. (tb_task_status u, tb_locked_by_username u))
        (concat (map taskBoundries
          (registry (foldl coordinate (new_device ''alice'' (new_project 3 [12]))
      [Claim 12 LOCKED_FOR_MAPPING, Remote ''bob'' 12 READY LOCKED_FOR_MAPPING,
       Claim 12 MAPPED, Remote ''carol'' 12 MAPPED LOCKED_FOR_VALIDATION, Refresh]))))
     = [(JStr ''LOCKED_FOR_VALIDATION'', JStr ''carol'')]"
proof -
  note ev = new_device_def new_project_def refreshActivity_def ProjectById_def get_project_def
    encode_task_def persistingValues_def task_status_lookup_def all_statuses_def claim_def
    claim_request_def registry_status_def registry_task_def status_of_label_def
    post_status_def registry_put_def Let_def
  have a: "map (\<lambda>t. (status t, lockedBy t))
        (tasks (server (foldl coordinate (new_device ''alice'' (new_project 3 [12]))
      [Claim 12 LOCKED_FOR_MAPPING, Remote ''bob'' 12 READY LOCKED_FOR_MAPPING,
       Claim 12 MAPPED, Remote ''carol'' 12 MAPPED LOCKED_FOR_VALIDATION, Refresh])))
     = [(LOCKED_FOR_VALIDATION, Some ''carol'')]"
    by (simp add: ev)
  have b: "map (\<lambda>u. (tb_task_status u, tb_locked_by_username u))
        (concat (map taskBoundries
          (registry (foldl coordinate (new_device ''alice'' (new_project 3 [12]))
      [Claim 12 LOCKED_FOR_MAPPING, Remote ''bob'' 12 READY LOCKED_FOR_MAPPING,
       Claim 12 MAPPED, Remote ''carol'' 12 MAPPED LOCKED_FOR_VALIDATION, Refresh]))))
     = [(JStr ''LOCKED_FOR_VALIDATION'', JStr ''carol'')]"
    by (simp add: ev)
  from lock_holder_iff_locked_status [of "''alice''" 3 "[12]" _ _
      "[Claim 12 LOCKED_FOR_MAPPING, Remote ''bob'' 12 READY LOCKED_FOR_MAPPING,
       Claim 12 MAPPED, Remote ''carol'' 12 MAPPED LOCKED_FOR_VALIDATION, Refresh]"] a b
  show ?thesis by blast
qed

lemma find_map_key:
  "(\<And>x. P (f x) = Q x) \<Longrightarrow> find P (map f xs) = map_option f (find Q xs)"
  by (induction xs) simp_all

lemma find_update:
  "find (\<lambda>t. taskIndex t = n) ts = Some t \<Longrightarrow> taskIndex t' = n \<Longrightarrow>
   find (\<lambda>t. taskIndex t = n) (map (\<lambda>u. if taskIndex u = n then t' else u) ts) = Some t'"
  by (induction ts) (auto split: if_splits)

lemma registry_task_refresh:
  "registry_task (refreshActivity srv) n
   = map_option (\<lambda>t. persistingValues (encode_task t)) (find (\<lambda>t. taskIndex t = n) (tasks srv))"
proof -
  have "find (\<lambda>u. tb_index u = n) (map (\<lambda>t. persistingValues (encode_task t)) (tasks srv))
      = map_option (\<lambda>t. persistingValues (encode_task t)) (find (\<lambda>t. taskIndex t = n) (tasks srv))"
    by (rule find_map_key) (simp add: persistingValues_def encode_task_def)
  then show ?thesis
    by (simp add: registry_task_def refreshActivity_def ProjectById_def get_project_def
        comp_def)
qed

lemma registry_status_refresh:
  "registry_status (refreshActivity srv) n
   = map_option status (find (\<lambda>t. taskIndex t = n) (tasks srv))"
  by (cases "find (\<lambda>t. taskIndex t = n) (tasks srv)")
     (simp_all add: registry_status_def registry_task_refresh persistingValues_def encode_task_def
        lookup_code label_roundtrip)

lemma find_taskIndex: "find (\<lambda>t. taskIndex t = n) ts = Some t \<Longrightarrow> taskIndex t = n"
  by (induction ts) (auto split: if_splits)

lemma ready_claims_race:
  assumes "a \<noteq> b"
    and "find (\<lambda>t. taskIndex t = n) (tasks srv) = Some t"
    and "status t = READY" and "lockedBy t = None"
    and "registry_status regA n = Some READY" and "registry_status regB n = Some READY"
    and "claim srv regA n LOCKED_FOR_MAPPING a = (ra, srv1, regA')"
    and "claim srv1 regB n LOCKED_FOR_MAPPING b = (rb, srv2, regB')"
  shows "claim_request regA n LOCKED_FOR_MAPPING = Some (READY, LOCKED_FOR_MAPPING)
       \<and> claim_request regB n LOCKED_FOR_MAPPING = Some (READY, LOCKED_FOR_MAPPING)
       \<and> (\<exists>t'. ra = Inr t' \<and> status t' = LOCKED_FOR_MAPPING \<and> lockedBy t' = Some a)
       \<and> rb = Inl ConflictError
       \<and> srv2 = srv1
       \<and> regB' = refreshActivity srv1
       \<and> registry_status regB' n = Some LOCKED_FOR_MAPPING
       \<and> (\<exists>u. registry_task regB' n = Some u \<and> tb_locked_by_username u = JStr a)
       \<and> (\<exists>t'. find (\<lambda>t. taskIndex t = n) (tasks srv2) = Some t' \<and> lockedBy t' = Some a)"
proof -
  let ?t' = "t\<lparr>status := LOCKED_FOR_MAPPING, lockedBy := Some a,
                 history := history t @
                   [\<lparr>actor = a, fromStatus = READY, toStatus = LOCKED_FOR_MAPPING,
                     timestamp = now srv\<rparr>]\<rparr>"
  let ?srv1 = "srv\<lparr>tasks := map (\<lambda>u. if taskIndex u = n then ?t' else u) (tasks srv),
                     now := now srv + 1\<rparr>"
  have ti: "taskIndex t = n" by (rule find_taskIndex[OF assms(2)])
  have qa: "claim_request regA n LOCKED_FOR_MAPPING = Some (READY, LOCKED_FOR_MAPPING)"
    using assms(5) by (simp add: claim_request_def)
  have qb: "claim_request regB n LOCKED_FOR_MAPPING = Some (READY, LOCKED_FOR_MAPPING)"
    using assms(6) by (simp add: claim_request_def)
  have pa: "post_status srv a n READY LOCKED_FOR_MAPPING = (Ok200 ?t', ?srv1)"
    using assms(2,3,4) by (simp add: post_status_def Let_def)
  from assms(7) qa pa have ra: "ra = Inr ?t'" and s1: "srv1 = ?srv1"
    by (simp_all add: claim_def)
  have f1: "find (\<lambda>t. taskIndex t = n) (tasks srv1) = Some ?t'"
    unfolding s1 using find_update[OF assms(2), of ?t'] ti by simp
  have pb: "post_status srv1 b n READY LOCKED_FOR_MAPPING = (Conflict409 LOCKED_FOR_MAPPING, srv1)"
    using f1 by (simp add: post_status_def Let_def)
  from assms(8) qb pb have rb: "rb = Inl ConflictError" and s2: "srv2 = srv1"
    and rB: "regB' = refreshActivity srv1"
    by (auto simp: claim_def)
  have st: "registry_status regB' n = Some LOCKED_FOR_MAPPING"
    unfolding rB registry_status_refresh f1 by simp
  have lk: "\<exists>u. registry_task regB' n = Some u \<and> tb_locked_by_username u = JStr a"
    unfolding rB registry_task_refresh f1 by (simp add: persistingValues_def encode_task_def)
  from qa qb ra rb s2 rB st lk f1 show ?thesis by simp
qed

lemma find_registry_update:
  "find (\<lambda>u. tb_index u = n) us = Some u \<Longrightarrow> tb_index v = n \<Longrightarrow>
   find (\<lambda>u. tb_index u = n) (map (\<lambda>u. if tb_index u = n then v else u) us) = Some v"
  by (induction us) (auto split: if_splits)

lemma registry_task_put:
  assumes "registry_task reg n = Some u" and "taskIndex t' = n"
  shows "registry_task (registry_put reg t') n = Some (persistingValues (encode_task t'))"
proof (cases reg)
  case Nil
  with assms show ?thesis by (simp add: registry_task_def)
next
  case (Cons p ps)
  with assms(1) have f: "find (\<lambda>u. tb_index u = n) (taskBoundries p) = Some u"
    by (simp add: registry_task_def)
  have "tb_index (persistingValues (encode_task t')) = n"
    using assms(2) by (simp add: persistingValues_def encode_task_def)
  from find_registry_update[OF f this] Cons assms(2) show ?thesis
    by (simp add: registry_task_def registry_put_def)
qed

lemma registry_status_task:
  "registry_status reg n = Some st \<Longrightarrow> \<exists>u. registry_task reg n = Some u"
  by (auto simp: registry_status_def split: option.splits)

lemma post_status_reject:
  assumes "find (\<lambda>t. taskIndex t = n) (tasks srv) = Some t"
    and "status t \<noteq> expected \<or> holder_after expected target (lockedBy t) a = None"
  shows "post_status srv a n expected target = (Conflict409 (status t), srv)"
  using assms by (auto simp: post_status_def)

lemma post_status_accept:
  assumes "find (\<lambda>t. taskIndex t = n) (tasks srv) = Some t"
    and "status t = expected" and "holder_after expected target (lockedBy t) a = Some h"
  shows "post_status srv a n expected target
         = (Ok200 (t\<lparr>status := target, lockedBy := h,
                    history := history t @
                      [\<lparr>actor = a, fromStatus = expected, toStatus = target,
                        timestamp = now srv\<rparr>]\<rparr>),
            srv\<lparr>tasks := map (\<lambda>u. if taskIndex u = n
                      then t\<lparr>status := target, lockedBy := h,
                             history := history t @
                               [\<lparr>actor = a, fromStatus = expected, toStatus = target,
                                 timestamp = now srv\<rparr>]\<rparr>
                      else u) (tasks srv),
                now := now srv + 1\<rparr>)"
  using assms by (simp add: post_status_def Let_def)

lemma claim_cas:
  assumes rs: "registry_status reg n = Some expected"
    and cl: "claim srv reg n target a = (r, srv', reg')"
  shows "claim_request reg n target = Some (expected, target)"
    and "find (\<lambda>t. taskIndex t = n) (tasks srv) = None \<Longrightarrow>
         r = Inl ConflictError \<and> srv' = srv \<and> reg' = refreshActivity srv"
    and "find (\<lambda>t. taskIndex t = n) (tasks srv) = Some t \<Longrightarrow>
         status t \<noteq> expected \<or> holder_after expected target (lockedBy t) a = None \<Longrightarrow>
         r = Inl ConflictError \<and> srv' = srv \<and> reg' = refreshActivity srv"
    and "find (\<lambda>t. taskIndex t = n) (tasks srv) = Some t \<Longrightarrow>
         status t = expected \<Longrightarrow> holder_after expected target (lockedBy t) a = Some h \<Longrightarrow>
         r = Inr (t\<lparr>status := target, lockedBy := h,
                    history := history t @
                      [\<lparr>actor = a, fromStatus = expected, toStatus = target,
                        timestamp = now srv\<rparr>]\<rparr>)
         \<and> find (\<lambda>t. taskIndex t = n) (tasks srv')
             = Some (t\<lparr>status := target, lockedBy := h,
                    history := history t @
                      [\<lparr>actor = a, fromStatus = expected, toStatus = target,
                        timestamp = now srv\<rparr>]\<rparr>)
         \<and> now srv' = now srv + 1
         \<and> registry_status reg' n = Some target
         \<and> field_of tb_locked_by_username (registry_task reg' n)
             = (case h of None \<Rightarrow> Null | Some x \<Rightarrow> JStr x)"
proof -
  show q: "claim_request reg n target = Some (expected, target)"
    using rs by (simp add: claim_request_def)
  {
    assume "find (\<lambda>t. taskIndex t = n) (tasks srv) = None"
    then have "post_status srv a n expected target = (NotFound404, srv)"
      by (simp add: post_status_def)
    with cl q show "r = Inl ConflictError \<and> srv' = srv \<and> reg' = refreshActivity srv"
      by (auto simp: claim_def)
  }
  {
    assume f: "find (\<lambda>t. taskIndex t = n) (tasks srv) = Some t"
      and "status t \<noteq> expected \<or> holder_after expected target (lockedBy t) a = None"
    from post_status_reject[OF this] cl q
    show "r = Inl ConflictError \<and> srv' = srv \<and> reg' = refreshActivity srv"
      by (auto simp: claim_def)
  }
  {
    let ?t' = "t\<lparr>status := target, lockedBy := h,
                    history := history t @
                      [\<lparr>actor = a, fromStatus = expected, toStatus = target,
                        timestamp = now srv\<rparr>]\<rparr>"
    assume f: "find (\<lambda>t. taskIndex t = n) (tasks srv) = Some t"
      and s: "status t = expected" and h: "holder_after expected target (lockedBy t) a = Some h"
    have ti: "taskIndex ?t' = n" using find_taskIndex[OF f] by simp
    from post_status_accept[OF f s h] cl q
    have r: "r = Inr ?t'" and reg': "reg' = registry_put reg ?t'"
      and srv': "srv' = srv\<lparr>tasks := map (\<lambda>u. if taskIndex u = n then ?t' else u) (tasks srv),
                now := now srv + 1\<rparr>"
      by (auto simp: claim_def)
    from registry_status_task[OF rs] obtain u where u: "registry_task reg n = Some u" ..
    note rt = registry_task_put[OF u ti]
    have st: "registry_status reg' n = Some target"
      unfolding reg' registry_status_def rt
      by (simp add: persistingValues_def encode_task_def lookup_code label_roundtrip)
    have lk: "field_of tb_locked_by_username (registry_task reg' n)
             = (case h of None \<Rightarrow> Null | Some x \<Rightarrow> JStr x)"
      unfolding reg' rt by (simp add: field_of_def persistingValues_def encode_task_def)
    have fs: "find (\<lambda>t. taskIndex t = n) (tasks srv') = Some ?t'"
      unfolding srv' using find_update[OF f ti] by simp
    from r st lk fs srv'
    show "r = Inr ?t' \<and> find (\<lambda>t. taskIndex t = n) (tasks srv') = Some ?t'
         \<and> now srv' = now srv + 1
         \<and> registry_status reg' n = Some target
         \<and> field_of tb_locked_by_username (registry_task reg' n)
             = (case h of None \<Rightarrow> Null | Some x \<Rightarrow> JStr x)"
      by simp
  }
qed

lemma claim_unknown_task:
  "registry_status reg n = None \<Longrightarrow>
   claim srv reg n target a = (Inl ConflictError, srv, refreshActivity srv)"
  by (simp add: claim_def claim_request_def)

text \<open>
  C1. Every \<open>claim\<close> sends the status its registry holds as the expected prior status.
  The authority accepts exactly when that status is the task's current one and the
  transition is allowed for the actor: then the caller gets the task, the authority
  holds the new status, holder and one more history record, and the caller's registry
  shows them. In every other case (a stale registry, a transition not allowed, a task
  the authority or the registry does not know) the authority is unchanged, the caller
  gets \<open>ConflictError\<close>, and its registry is the refetched authoritative state, not its own
  claim. So when two actors whose registries both show a task as \<open>READY\<close> claim it for
  mapping, in whichever order the requests arrive, the first is accepted and holds the
  lock, and the second gets \<open>ConflictError\<close> and a registry that shows the task locked by
  the winner.
\<close>

theorem claim_compare_and_swap:
  "(registry_status reg n = None \<longrightarrow>
      claim srv reg n target a = (Inl ConflictError, srv, refreshActivity srv))
   \<and> (registry_status reg n = Some expected \<and> claim srv reg n target a = (r, srv', reg') \<longrightarrow>
        claim_request reg n target = Some (expected, target)
        \<and> (find (\<lambda>t. taskIndex t = n) (tasks srv) = None \<longrightarrow>
             r = Inl ConflictError \<and> srv' = srv \<and> reg' = refreshActivity srv)
        \<and> (\<forall>t. find (\<lambda>t. taskIndex t = n) (tasks srv) = Some t
                 \<and> (status t \<noteq> expected \<or> holder_after expected target (lockedBy t) a = None)
             \<longrightarrow> r = Inl ConflictError \<and> srv' = srv \<and> reg' = refreshActivity srv)
        \<and> (\<forall>t h. find (\<lambda>t. taskIndex t = n) (tasks srv) = Some t
                 \<and> status t = expected \<and> holder_after expected target (lockedBy t) a = Some h
             \<longrightarrow> r = Inr (t\<lparr>status := target, lockedBy := h,
                           history := history t @
                             [\<lparr>actor = a, fromStatus = expected, toStatus = target,
                               timestamp = now srv\<rparr>]\<rparr>)
                 \<and> find (\<lambda>t. taskIndex t = n) (tasks srv')
                     = Some (t\<lparr>status := target, lockedBy := h,
                           history := history t @
                             [\<lparr>actor = a, fromStatus = expected, toStatus = target,
                               timestamp = now srv\<rparr>]\<rparr>)
                 \<and> now srv' = now srv + 1
                 \<and> registry_status reg' n = Some target
                 \<and> field_of tb_locked_by_username (registry_task reg' n)
                     = (case h of None \<Rightarrow> Null | Some x \<Rightarrow> JStr x)))
   \<and> (a \<noteq> b \<and> find (\<lambda>t. taskIndex t = n) (tasks srv) = Some t0
        \<and> status t0 = READY \<and> lockedBy t0 = None
        \<and> registry_status regA n = Some READY \<and> registry_status regB n = Some READY
        \<and> claim srv regA n LOCKED_FOR_MAPPING a = (ra, srv1, regA')
        \<and> claim srv1 regB n LOCKED_FOR_MAPPING b = (rb, srv2, regB') \<longrightarrow>
        claim_request regA n LOCKED_FOR_MAPPING = Some (READY, LOCKED_FOR_MAPPING)
        \<and> claim_request regB n LOCKED_FOR_MAPPING = Some (READY, LOCKED_FOR_MAPPING)
        \<and> (\<exists>t'. ra = Inr t' \<and> status t' = LOCKED_FOR_MAPPING \<and> lockedBy t' = Some a)
        \<and> registry_status regA' n = Some LOCKED_FOR_MAPPING
        \<and> field_of tb_locked_by_username (registry_task regA' n) = JStr a
        \<and> rb = Inl ConflictError
        \<and> srv2 = srv1
        \<and> regB' = refreshActivity srv1
        \<and> registry_status regB' n = Some LOCKED_FOR_MAPPING
        \<and> field_of tb_locked_by_username (registry_task regB' n) = JStr a
        \<and> (\<exists>t'. find (\<lambda>t. taskIndex t = n) (tasks srv2) = Some t' \<and> lockedBy t' = Some a))"
proof (intro conjI impI allI)
  assume "registry_status reg n = None"
  then show "claim srv reg n target a = (Inl ConflictError, srv, refreshActivity srv)"
    by (rule claim_unknown_task)
next
  assume h: "registry_status reg n = Some expected \<and> claim srv reg n target a = (r, srv', reg')"
  then show "claim_request reg n target = Some (expected, target)"
    using claim_cas(1) by blast
next
  assume h: "registry_status reg n = Some expected \<and> claim srv reg n target a = (r, srv', reg')"
    and "find (\<lambda>t. taskIndex t = n) (tasks srv) = None"
  then show "r = Inl ConflictError" "srv' = srv" "reg' = refreshActivity srv"
    using claim_cas(2)[of reg n expected srv target a r srv' reg'] by blast+
next
  fix t
  assume h: "registry_status reg n = Some expected \<and> claim srv reg n target a = (r, srv', reg')"
    and "find (\<lambda>t. taskIndex t = n) (tasks srv) = Some t
         \<and> (status t \<noteq> expected \<or> holder_after expected target (lockedBy t) a = None)"
  then show "r = Inl ConflictError" "srv' = srv" "reg' = refreshActivity srv"
    using claim_cas(3)[of reg n expected srv target a r srv' reg' t] by blast+
next
  fix t :: task and h
  let ?t' = "t\<lparr>status := target, lockedBy := h,
                           history := history t @
                             [\<lparr>actor = a, fromStatus = expected, toStatus = target,
                               timestamp = now srv\<rparr>]\<rparr>"
  assume c: "registry_status reg n = Some expected \<and> claim srv reg n target a = (r, srv', reg')"
    and f: "find (\<lambda>t. taskIndex t = n) (tasks srv) = Some t
         \<and> status t = expected \<and> holder_after expected target (lockedBy t) a = Some h"
  from c f claim_cas(4)[of reg n expected srv target a r srv' reg' t h]
  have all: "r = Inr ?t' \<and> find (\<lambda>t. taskIndex t = n) (tasks srv') = Some ?t'
         \<and> now srv' = now srv + 1
         \<and> registry_status reg' n = Some target
         \<and> field_of tb_locked_by_username (registry_task reg' n)
             = (case h of None \<Rightarrow> Null | Some x \<Rightarrow> JStr x)"
    by blast
  from all show "r = Inr ?t'" by blast
  from all show "find (\<lambda>t. taskIndex t = n) (tasks srv') = Some ?t'" by blast
  from all show "now srv' = now srv + 1" by blast
  from all show "registry_status reg' n = Some target" by blast
  from all show "field_of tb_locked_by_username (registry_task reg' n)
             = (case h of None \<Rightarrow> Null | Some x \<Rightarrow> JStr x)" by blast
next
  assume race: "a \<noteq> b \<and> find (\<lambda>t. taskIndex t = n) (tasks srv) = Some t0
        \<and> status t0 = READY \<and> lockedBy t0 = None
        \<and> registry_status regA n = Some READY \<and> registry_status regB n = Some READY
        \<and> claim srv regA n LOCKED_FOR_MAPPING a = (ra, srv1, regA')
        \<and> claim srv1 regB n LOCKED_FOR_MAPPING b = (rb, srv2, regB')"
  then have ne: "a \<noteq> b" and f: "find (\<lambda>t. taskIndex t = n) (tasks srv) = Some t0"
    and s: "status t0 = READY" and l: "lockedBy t0 = None"
    and rA: "registry_status regA n = Some READY" and rB: "registry_status regB n = Some READY"
    and cA: "claim srv regA n LOCKED_FOR_MAPPING a = (ra, srv1, regA')"
    and cB: "claim srv1 regB n LOCKED_FOR_MAPPING b = (rb, srv2, regB')"
    by blast+
  note old = ready_claims_race[OF ne f s l rA rB cA cB]
  have ha: "holder_after READY LOCKED_FOR_MAPPING (lockedBy t0) a = Some (Some a)"
    using l by simp
  note win = claim_cas(4)[OF rA cA f s ha]
  from old show "claim_request regA n LOCKED_FOR_MAPPING = Some (READY, LOCKED_FOR_MAPPING)"
    by blast
  from old show "claim_request regB n LOCKED_FOR_MAPPING = Some (READY, LOCKED_FOR_MAPPING)"
    by blast
  from old show "\<exists>t'. ra = Inr t' \<and> status t' = LOCKED_FOR_MAPPING \<and> lockedBy t' = Some a"
    by blast
  from win show "registry_status regA' n = Some LOCKED_FOR_MAPPING" by blast
  from win show "field_of tb_locked_by_username (registry_task regA' n) = JStr a" by simp
  from old show "rb = Inl ConflictError" by blast
  from old show "srv2 = srv1" by blast
  from old show "regB' = refreshActivity srv1" by blast
  from old show "registry_status regB' n = Some LOCKED_FOR_MAPPING" by blast
  from old show "field_of tb_locked_by_username (registry_task regB' n) = JStr a"
    by (auto simp: field_of_def)
  from old show "\<exists>t'. find (\<lambda>t. taskIndex t = n) (tasks srv2) = Some t' \<and> lockedBy t' = Some a"
    by blast
qed

theorem claim_compare_and_swap_witness:
  "fst (claim (new_project 3 [12]) (refreshActivity (new_project 3 [12])) 12
          LOCKED_FOR_MAPPING ''A'')
     = Inr \<lparr>taskIndex = 12, status = LOCKED_FOR_MAPPING, lockedBy = Some ''A'',
            outline = Undefined,
            history = [\<lparr>actor = ''A'', fromStatus = READY, toStatus = LOCKED_FOR_MAPPING,
                        timestamp = 0\<rparr>]\<rparr>
   \<and> fst (claim
          (fst (snd (claim (new_project 3 [12]) (refreshActivity (new_project 3 [12])) 12
                       LOCKED_FOR_MAPPING ''A'')))
          (refreshActivity (new_project 3 [12])) 12 LOCKED_FOR_MAPPING ''B'')
     = Inl ConflictError
   \<and> registry_status
        (snd (snd (claim
          (fst (snd (claim (new_project 3 [12]) (refreshActivity (new_project 3 [12])) 12
                       LOCKED_FOR_MAPPING ''A'')))
          (refreshActivity (new_project 3 [12])) 12 LOCKED_FOR_MAPPING ''B''))) 12
     = Some LOCKED_FOR_MAPPING"
proof -
  let ?srv = "new_project 3 [12]"
  let ?reg = "refreshActivity ?srv"
  let ?t = "\<lparr>taskIndex = 12, status = READY, lockedBy = None, outline = Undefined, history = []\<rparr>"
  let ?ca = "claim ?srv ?reg 12 LOCKED_FOR_MAPPING ''A''"
  let ?cb = "claim (fst (snd ?ca)) ?reg 12 LOCKED_FOR_MAPPING ''B''"
  have ne: "''A'' \<noteq> ''B''" by simp
  have f: "find (\<lambda>t. taskIndex t = 12) (tasks ?srv) = Some ?t"
    by (simp add: new_project_def)
  have rs: "registry_status ?reg 12 = Some READY"
    by (simp add: registry_status_refresh new_project_def)
  have ca: "?ca = (fst ?ca, fst (snd ?ca), snd (snd ?ca))" by simp
  have cb: "?cb = (fst ?cb, fst (snd ?cb), snd (snd ?cb))" by simp
  have st: "status ?t = READY" "lockedBy ?t = None" by simp_all
  from claim_compare_and_swap[where a = "''A''" and b = "''B''" and srv = ?srv and n = 12
      and ?t0.0 = ?t and regA = ?reg and regB = ?reg and ra = "fst ?ca"
      and ?srv1.0 = "fst (snd ?ca)" and regA' = "snd (snd ?ca)" and rb = "fst ?cb"
      and ?srv2.0 = "fst (snd ?cb)" and regB' = "snd (snd ?cb)"]
    ne f st rs ca cb
  have l: "fst ?cb = Inl ConflictError"
    and rb: "registry_status (snd (snd ?cb)) 12 = Some LOCKED_FOR_MAPPING"
    by blast+
  have "fst ?ca = Inr \<lparr>taskIndex = 12, status = LOCKED_FOR_MAPPING, lockedBy = Some ''A'',
            outline = Undefined,
            history = [\<lparr>actor = ''A'', fromStatus = READY, toStatus = LOCKED_FOR_MAPPING,
                        timestamp = 0\<rparr>]\<rparr>"
  proof -
    have cr: "claim_request ?reg 12 LOCKED_FOR_MAPPING = Some (READY, LOCKED_FOR_MAPPING)"
      using rs by (simp add: claim_request_def)
    have "fst (post_status ?srv ''A'' 12 READY LOCKED_FOR_MAPPING)
        = Ok200 \<lparr>taskIndex = 12, status = LOCKED_FOR_MAPPING, lockedBy = Some ''A'',
            outline = Undefined,
            history = [\<lparr>actor = ''A'', fromStatus = READY, toStatus = LOCKED_FOR_MAPPING,
                        timestamp = 0\<rparr>]\<rparr>"
      by (simp add: post_status_def new_project_def Let_def)
    with cr show ?thesis
      by (cases "post_status ?srv ''A'' 12 READY LOCKED_FOR_MAPPING") (simp add: claim_def)
  qed
  with l rb show ?thesis by simp
qed

section \<open>Properties of the offline tile cache\<close>

lemma find_filter_none: "find P (filter (\<lambda>x. \<not> P x) xs) = None"
  by (induction xs) auto

lemma find_map_same:
  "(\<And>x. P (f x) = P x) \<Longrightarrow> find P (map f xs) = map_option f (find P xs)"
  by (induction xs) simp_all

lemma find_Some_holds: "find P xs = Some x \<Longrightarrow> P x"
  by (induction xs) (auto split: if_splits)

lemma find_append_first:
  "find P (xs @ ys) = (case find P xs of None \<Rightarrow> find P ys | Some x \<Rightarrow> Some x)"
  by (induction xs) auto

lemma find_filter_keep:
  "(\<And>x. P x \<Longrightarrow> Q x) \<Longrightarrow> find P (filter Q xs) = find P xs"
  by (induction xs) auto

lemma lookup_begin_write:
  "lookup_entry (begin_write c k) k
   = Some \<lparr>entry_key = k, content = [], sizeBytes = 0, createdAt = clock c,
           lastAccessedAt = clock c, integrityHash = 0, published = False\<rparr>"
  using find_filter_none[of "\<lambda>e. entry_key e = k" "entries c"]
  by (simp add: lookup_entry_def begin_write_def find_append_first)

lemma lookup_write_chunk:
  "lookup_entry (write_chunk c k chunk) k
   = map_option (\<lambda>e. e\<lparr>content := content e @ chunk, sizeBytes := sizeBytes e + length chunk\<rparr>)
       (lookup_entry c k)"
proof -
  let ?g = "\<lambda>e. e\<lparr>content := content e @ chunk, sizeBytes := sizeBytes e + length chunk\<rparr>"
  let ?f = "\<lambda>e. if entry_key e = k then ?g e else e"
  let ?P = "\<lambda>e. entry_key e = k"
  have m: "find ?P (map ?f (entries c)) = map_option ?f (find ?P (entries c))"
    by (rule find_map_same) simp
  have l: "lookup_entry (write_chunk c k chunk) k = find ?P (map ?f (entries c))"
    by (simp add: lookup_entry_def write_chunk_def)
  show ?thesis
  proof (cases "find ?P (entries c)")
    case None
    then show ?thesis unfolding l m by (simp add: lookup_entry_def)
  next
    case (Some e)
    then have "entry_key e = k" by (rule find_Some_holds)
    then have "?f e = ?g e" by simp
    with Some show ?thesis unfolding l m by (simp add: lookup_entry_def)
  qed
qed

lemma lookup_staged:
  "lookup_entry (write_chunk (begin_write c k) k bs) k
   = Some \<lparr>entry_key = k, content = bs, sizeBytes = length bs, createdAt = clock c,
           lastAccessedAt = clock c, integrityHash = 0, published = False\<rparr>"
  by (simp add: lookup_write_chunk lookup_begin_write)

lemma get_unpublished:
  "lookup_entry c k = Some e \<Longrightarrow> \<not> published e \<Longrightarrow> get H c k = (Miss, c)"
  by (simp add: get_def)

lemma interrupted_miss: "get H (put_interrupted c k bs n) k = (Miss, put_interrupted c k bs n)"
  by (rule get_unpublished[where e = "\<lparr>entry_key = k, content = take n bs,
        sizeBytes = length (take n bs), createdAt = clock c,
        lastAccessedAt = clock c, integrityHash = 0, published = False\<rparr>"])
     (simp_all add: put_interrupted_def lookup_staged)

lemma lookup_publish:
  assumes "publish H c k bs = Some c1" and "lookup_entry c k = Some e"
  shows "lookup_entry c1 k = Some (e\<lparr>integrityHash := H bs, published := True\<rparr>)"
    and "H (content e) = H bs"
proof -
  let ?f = "\<lambda>e. if entry_key e = k then e\<lparr>integrityHash := H bs, published := True\<rparr> else e"
  from assms have c1: "c1 = c\<lparr>entries := map ?f (entries c)\<rparr>" and h: "H (content e) = H bs"
    by (auto simp: publish_def split: if_splits)
  have "find (\<lambda>e. entry_key e = k) (map ?f (entries c))
        = map_option ?f (find (\<lambda>e. entry_key e = k) (entries c))"
    by (rule find_map_same) simp
  moreover from assms(2) have "entry_key e = k"
    unfolding lookup_entry_def by (rule find_Some_holds)
  ultimately show "lookup_entry c1 k = Some (e\<lparr>integrityHash := H bs, published := True\<rparr>)"
    using assms(2) by (simp add: c1 lookup_entry_def)
  show "H (content e) = H bs" by (rule h)
qed

lemma evict_until_take:
  "evict_until b vs es = Some (ks, es') \<Longrightarrow>
   (\<exists>n. ks = map entry_key (take n vs))
   \<and> es' = filter (\<lambda>e. entry_key e \<notin> set ks) es
   \<and> sum_list (map sizeBytes es') \<le> b
   \<and> (sum_list (map sizeBytes es) \<le> b \<longrightarrow> ks = [])"
proof (induction vs arbitrary: es ks es')
  case Nil
  then show ?case by (auto split: if_splits)
next
  case (Cons v vs)
  show ?case
  proof (cases "sum_list (map sizeBytes es) \<le> b")
    case True
    with Cons.prems have "ks = []" "es' = es" by auto
    with True show ?thesis by (auto intro: exI[of _ 0])
  next
    case False
    with Cons.prems obtain ks0 where
      r: "evict_until b vs (filter (\<lambda>e. entry_key e \<noteq> entry_key v) es) = Some (ks0, es')"
      and ks: "ks = entry_key v # ks0"
      by (auto split: option.splits)
    from Cons.IH[OF r] obtain n where n: "ks0 = map entry_key (take n vs)"
      and es': "es' = filter (\<lambda>e. entry_key e \<notin> set ks0)
                       (filter (\<lambda>e. entry_key e \<noteq> entry_key v) es)"
      and fit: "sum_list (map sizeBytes es') \<le> b"
      by blast
    have "ks = map entry_key (take (Suc n) (v # vs))" using ks n by simp
    moreover have "es' = filter (\<lambda>e. entry_key e \<notin> set ks) es"
      unfolding es' ks by (auto intro: filter_cong)
    ultimately show ?thesis using fit False by blast
  qed
qed

lemma sorted_take_drop:
  assumes "sorted (map f xs)" and "x \<in> set (take n xs)" and "y \<in> set (drop n xs)"
  shows "f x \<le> f y"
proof -
  have "sorted (map f (take n xs) @ map f (drop n xs))"
    using assms(1) by (simp flip: map_append)
  with assms(2,3) show ?thesis by (auto simp: sorted_append)
qed

lemma distinct_key_eq:
  "distinct (map f xs) \<Longrightarrow> x \<in> set xs \<Longrightarrow> y \<in> set xs \<Longrightarrow> f x = f y \<Longrightarrow> x = y"
  by (meson distinct_map inj_on_eq_iff)

lemma evict_basic:
  assumes ev: "evictIfOverBudget k c = Some (ks, c')"
  shows "entries c' = filter (\<lambda>e. entry_key e \<notin> set ks) (entries c)"
    and "total_bytes c' \<le> budget c"
    and "budget c' = budget c" and "reading c' = reading c" and "clock c' = clock c"
    and "k \<notin> set ks"
proof -
  let ?vs = "sort_key lastAccessedAt (candidates k c)"
  from ev obtain es where r: "evict_until (budget c) ?vs (entries c) = Some (ks, es)"
    and c': "c' = c\<lparr>entries := es\<rparr>"
    by (auto simp: evictIfOverBudget_def split: option.splits)
  from evict_until_take[OF r] obtain n where n: "ks = map entry_key (take n ?vs)"
    and es: "es = filter (\<lambda>e. entry_key e \<notin> set ks) (entries c)"
    and fit: "sum_list (map sizeBytes es) \<le> budget c"
    by blast
  show "entries c' = filter (\<lambda>e. entry_key e \<notin> set ks) (entries c)" using es c' by simp
  show "total_bytes c' \<le> budget c" using fit c' by (simp add: total_bytes_def)
  show "budget c' = budget c" "reading c' = reading c" "clock c' = clock c" using c' by simp_all
  have "set (take n ?vs) \<subseteq> set (candidates k c)"
    using set_take_subset[of n ?vs] by simp
  then show "k \<notin> set ks" unfolding n by (auto simp: candidates_def)
qed

lemma evict_lru:
  assumes ev: "evictIfOverBudget k c = Some (ks, c')"
    and d: "distinct (map entry_key (entries c))"
  shows "(\<exists>n. ks = map entry_key (take n (sort_key lastAccessedAt (candidates k c))))"
    and "entries c' = filter (\<lambda>e. entry_key e \<notin> set ks) (entries c)"
    and "total_bytes c' \<le> budget c"
    and "budget c' = budget c" and "reading c' = reading c" and "clock c' = clock c"
    and "k \<notin> set ks" and "set ks \<inter> set (reading c) = {}"
    and "total_bytes c \<le> budget c \<Longrightarrow> ks = []"
    and "\<And>v e. v \<in> set (entries c) \<Longrightarrow> entry_key v \<in> set ks \<Longrightarrow> e \<in> set (candidates k c')
          \<Longrightarrow> lastAccessedAt v \<le> lastAccessedAt e"
proof -
  let ?vs = "sort_key lastAccessedAt (candidates k c)"
  from ev obtain es where r: "evict_until (budget c) ?vs (entries c) = Some (ks, es)"
    and c': "c' = c\<lparr>entries := es\<rparr>"
    by (auto simp: evictIfOverBudget_def split: option.splits)
  from evict_until_take[OF r] obtain n where n: "ks = map entry_key (take n ?vs)"
    and es: "es = filter (\<lambda>e. entry_key e \<notin> set ks) (entries c)"
    and fit: "sum_list (map sizeBytes es) \<le> budget c"
    and none: "sum_list (map sizeBytes (entries c)) \<le> budget c \<longrightarrow> ks = []"
    by blast
  show "\<exists>n. ks = map entry_key (take n ?vs)" using n by blast
  show "entries c' = filter (\<lambda>e. entry_key e \<notin> set ks) (entries c)" using es c' by simp
  show "total_bytes c' \<le> budget c" using fit c' by (simp add: total_bytes_def)
  show "budget c' = budget c" "reading c' = reading c" "clock c' = clock c" using c' by simp_all
  have sub: "set (take n ?vs) \<subseteq> set (candidates k c)"
    using set_take_subset[of n ?vs] by simp
  then have keys: "\<And>x. x \<in> set ks \<Longrightarrow> x \<noteq> k \<and> x \<notin> set (reading c)"
    unfolding n by (auto simp: candidates_def)
  show "k \<notin> set ks" using keys by blast
  show "set ks \<inter> set (reading c) = {}" using keys by blast
  show "total_bytes c \<le> budget c \<Longrightarrow> ks = []" using none by (simp add: total_bytes_def)
  fix v e
  assume v: "v \<in> set (entries c)" and vk: "entry_key v \<in> set ks"
    and e: "e \<in> set (candidates k c')"
  from vk obtain v' where v': "v' \<in> set (take n ?vs)" and kk: "entry_key v' = entry_key v"
    unfolding n by auto
  from v' sub have "v' \<in> set (entries c)" by (auto simp: candidates_def)
  from distinct_key_eq[OF d this v kk] v' have vin: "v \<in> set (take n ?vs)" by simp
  from e have ec: "e \<in> set (candidates k c)" and ek: "entry_key e \<notin> set ks"
    unfolding c' es by (auto simp: candidates_def)
  from ek have "e \<notin> set (take n ?vs)" unfolding n by auto
  moreover have "set ?vs = set (take n ?vs) \<union> set (drop n ?vs)"
    by (metis append_take_drop_id set_append)
  moreover from ec have "e \<in> set ?vs" by simp
  ultimately have ein: "e \<in> set (drop n ?vs)" by blast
  have "sorted (map lastAccessedAt ?vs)" by (rule sorted_sort_key)
  from sorted_take_drop[OF this vin ein] show "lastAccessedAt v \<le> lastAccessedAt e" .
qed

lemma put_Inr:
  assumes "put H c k bs = Inr (e, c')"
  shows "lookup_entry c' k = Some e" and "entry_key e = k" and "content e = bs"
    and "integrityHash e = H bs" and "published e" and "sizeBytes e = length bs"
    and "total_bytes c' \<le> budget c" and "budget c' = budget c" and "reading c' = reading c"
    and "\<exists>ks. entries c' = filter (\<lambda>x. entry_key x \<notin> set ks)
            (map (\<lambda>x. if entry_key x = k then x\<lparr>integrityHash := H bs, published := True\<rparr> else x)
              (entries (write_chunk (begin_write c k) k bs)))"
proof -
  let ?st = "write_chunk (begin_write c k) k bs"
  let ?e0 = "\<lparr>entry_key = k, content = bs, sizeBytes = length bs, createdAt = clock c,
           lastAccessedAt = clock c, integrityHash = 0, published = False\<rparr>"
  from assms obtain c1 ks c2 where p: "publish H ?st k bs = Some c1"
    and ev: "evictIfOverBudget k c1 = Some (ks, c2)"
    and l2: "lookup_entry c2 k = Some e" and c': "c' = c2\<lparr>clock := clock c2 + 1\<rparr>"
    by (auto simp: put_def split: option.splits)
  note b = evict_basic[OF ev]
  from lookup_publish(1)[OF p lookup_staged]
  have l1: "lookup_entry c1 k = Some (?e0\<lparr>integrityHash := H bs, published := True\<rparr>)" .
  have "lookup_entry c2 k = lookup_entry c1 k"
    unfolding lookup_entry_def b(1) using b(6) by (intro find_filter_keep) auto
  with l1 l2 have e: "e = ?e0\<lparr>integrityHash := H bs, published := True\<rparr>" by simp
  show "lookup_entry c' k = Some e" using l2 c' by (simp add: lookup_entry_def)
  show "entry_key e = k" "content e = bs" "integrityHash e = H bs" "published e"
    "sizeBytes e = length bs"
    using e by simp_all
  from p have c1: "c1 = ?st\<lparr>entries := map (\<lambda>x. if entry_key x = k
        then x\<lparr>integrityHash := H bs, published := True\<rparr> else x) (entries ?st)\<rparr>"
    by (auto simp: publish_def split: option.splits if_splits)
  have b1: "budget c1 = budget c" "reading c1 = reading c"
    unfolding c1 by (simp_all add: write_chunk_def begin_write_def)
  show "total_bytes c' \<le> budget c" using b(2) b1 c' by (simp add: total_bytes_def)
  show "budget c' = budget c" using b(3) b1 c' by simp
  show "reading c' = reading c" using b(4) b1 c' by simp
  show "\<exists>ks. entries c' = filter (\<lambda>x. entry_key x \<notin> set ks)
            (map (\<lambda>x. if entry_key x = k then x\<lparr>integrityHash := H bs, published := True\<rparr> else x)
              (entries ?st))"
    using b(1) c' unfolding c1 by auto
qed

lemma keys_staged:
  "map entry_key (entries (write_chunk (begin_write c k) k bs))
   = filter (\<lambda>x. x \<noteq> k) (map entry_key (entries c)) @ [k]"
  by (simp add: write_chunk_def begin_write_def filter_map comp_def if_distrib cong: if_cong)

lemma put_distinct:
  assumes "put H c k bs = Inr (e, c')" and "distinct (map entry_key (entries c))"
  shows "distinct (map entry_key (entries c'))"
proof -
  let ?st = "write_chunk (begin_write c k) k bs"
  let ?f = "\<lambda>x. if entry_key x = k then x\<lparr>integrityHash := H bs, published := True\<rparr> else x"
  from put_Inr(10)[OF assms(1)] obtain ks where
    es: "entries c' = filter (\<lambda>x. entry_key x \<notin> set ks) (map ?f (entries ?st))" by blast
  have "map entry_key (map ?f (entries ?st)) = map entry_key (entries ?st)"
    by (simp add: comp_def if_distrib cong: if_cong)
  then have d: "distinct (map entry_key (map ?f (entries ?st)))"
    using assms(2) by (simp add: keys_staged)
  have "map entry_key (entries c')
        = filter (\<lambda>x. x \<notin> set ks) (map entry_key (map ?f (entries ?st)))"
    unfolding es by (simp add: filter_map comp_def)
  with d show ?thesis by simp
qed

lemma get_inv:
  "cache_inv c \<Longrightarrow> cache_inv (snd (get H c k)) \<and> budget (snd (get H c k)) = budget c"
proof -
  assume inv: "cache_inv c"
  let ?t = "\<lambda>e. if entry_key e = k then e\<lparr>lastAccessedAt := clock c\<rparr> else e"
  have "map sizeBytes (map ?t (entries c)) = map sizeBytes (entries c)"
    by (simp add: comp_def if_distrib cong: if_cong)
  moreover have "map entry_key (map ?t (entries c)) = map entry_key (entries c)"
    by (simp add: comp_def if_distrib cong: if_cong)
  ultimately show ?thesis using inv
    by (auto simp: get_def cache_inv_def total_bytes_def split: option.splits simp del: map_map)
qed

lemma cache_step_inv:
  assumes "cache_inv c"
  shows "cache_inv (cache_step H c op) \<and> budget (cache_step H c op) = budget c"
proof (cases op)
  case (Put k bs)
  show ?thesis
  proof (cases "put H c k bs")
    case (Inl err)
    with Put assms show ?thesis by simp
  next
    case (Inr r)
    obtain e c' where r: "r = (e, c')" by (cases r)
    from put_Inr(7,8)[OF Inr[unfolded r]] put_distinct[OF Inr[unfolded r]] assms
    have "cache_inv c' \<and> budget c' = budget c" by (simp add: cache_inv_def)
    with Put Inr r show ?thesis by simp
  qed
next
  case (Get k)
  with get_inv[OF assms, of H k] show ?thesis by simp
next
  case (BeginRead k)
  with assms show ?thesis by (simp add: cache_inv_def total_bytes_def)
next
  case (EndRead k)
  with assms show ?thesis by (simp add: cache_inv_def total_bytes_def)
qed

lemma cache_run_inv:
  "cache_inv c \<Longrightarrow>
   cache_inv (foldl (cache_step H) c ops) \<and> budget (foldl (cache_step H) c ops) = budget c"
proof (induction ops arbitrary: c)
  case Nil
  then show ?case by simp
next
  case (Cons op ops)
  from cache_step_inv[OF Cons.prems, of H op] Cons.IH[of "cache_step H c op"]
  show ?case by simp
qed

lemma empty_cache_inv: "cache_inv (empty_cache b)"
  by (simp add: cache_inv_def empty_cache_def total_bytes_def)

text \<open>
  C7. When \<open>put\<close> returns an entry, \<open>get\<close> of the key returns exactly the bytes
  written, and the entry carries the hash of those bytes. A write interrupted after any
  number of bytes leaves \<open>get\<close> of the key a miss: the partial entry is never valid.
  When \<open>put\<close> fails, the cache is as it was before.
\<close>

theorem cache_round_trip:
  "(put H c k bs = Inr (e, c') \<longrightarrow>
      fst (get H c' k) = Hit bs \<and> entry_key e = k \<and> content e = bs \<and> integrityHash e = H bs)
   \<and> fst (get H (put_interrupted c k bs n) k) = Miss
   \<and> (put H c k bs = Inl err \<longrightarrow> cache_step H c (Put k bs) = c)"
proof (intro conjI impI)
  assume p: "put H c k bs = Inr (e, c')"
  note r = put_Inr[OF p]
  from r(1,3,4,5) show "fst (get H c' k) = Hit bs" by (simp add: get_def)
  from r show "entry_key e = k" "content e = bs" "integrityHash e = H bs" by simp_all
next
  show "fst (get H (put_interrupted c k bs n) k) = Miss" by (simp add: interrupted_miss)
next
  assume "put H c k bs = Inl err"
  then show "cache_step H c (Put k bs) = c" by simp
qed

lemma eviction_budget_lru:
  "total_bytes (foldl (cache_step H) (empty_cache b) ops) \<le> b
   \<and> distinct (map entry_key (entries (foldl (cache_step H) (empty_cache b) ops)))
   \<and> (distinct (map entry_key (entries c)) \<and> evictIfOverBudget k c = Some (ks, c') \<longrightarrow>
        total_bytes c' \<le> budget c
        \<and> (\<exists>n. ks = map entry_key (take n (sort_key lastAccessedAt (candidates k c))))
        \<and> entries c' = filter (\<lambda>e. entry_key e \<notin> set ks) (entries c)
        \<and> set ks \<inter> set (reading c) = {}
        \<and> (total_bytes c \<le> budget c \<longrightarrow> ks = [])
        \<and> (\<forall>v e. v \<in> set (entries c) \<and> entry_key v \<in> set ks \<and> e \<in> set (candidates k c')
              \<longrightarrow> lastAccessedAt v \<le> lastAccessedAt e))"
proof -
  from cache_run_inv[OF empty_cache_inv, of H b ops]
  have a: "total_bytes (foldl (cache_step H) (empty_cache b) ops) \<le> b"
    and d: "distinct (map entry_key (entries (foldl (cache_step H) (empty_cache b) ops)))"
    by (simp_all add: cache_inv_def empty_cache_def)
  have l: "distinct (map entry_key (entries c)) \<and> evictIfOverBudget k c = Some (ks, c') \<longrightarrow>
        total_bytes c' \<le> budget c
        \<and> (\<exists>n. ks = map entry_key (take n (sort_key lastAccessedAt (candidates k c))))
        \<and> entries c' = filter (\<lambda>e. entry_key e \<notin> set ks) (entries c)
        \<and> set ks \<inter> set (reading c) = {}
        \<and> (total_bytes c \<le> budget c \<longrightarrow> ks = [])
        \<and> (\<forall>v e. v \<in> set (entries c) \<and> entry_key v \<in> set ks \<and> e \<in> set (candidates k c')
              \<longrightarrow> lastAccessedAt v \<le> lastAccessedAt e)"
  proof
    assume h: "distinct (map entry_key (entries c)) \<and> evictIfOverBudget k c = Some (ks, c')"
    then have ev: "evictIfOverBudget k c = Some (ks, c')"
      and di: "distinct (map entry_key (entries c))" by simp_all
    note r = evict_lru[OF ev di]
    from r(1,2,3,8,9) r(10) show "total_bytes c' \<le> budget c
        \<and> (\<exists>n. ks = map entry_key (take n (sort_key lastAccessedAt (candidates k c))))
        \<and> entries c' = filter (\<lambda>e. entry_key e \<notin> set ks) (entries c)
        \<and> set ks \<inter> set (reading c) = {}
        \<and> (total_bytes c \<le> budget c \<longrightarrow> ks = [])
        \<and> (\<forall>v e. v \<in> set (entries c) \<and> entry_key v \<in> set ks \<and> e \<in> set (candidates k c')
              \<longrightarrow> lastAccessedAt v \<le> lastAccessedAt e)"
      by blast
  qed
  from a d l show ?thesis by blast
qed

theorem cache_round_trip_witness:
  "put (\<lambda>bs. sum_list (map unat bs)) (empty_cache 5) (3, ''tiles'', 77) [1, 2, 3]
     = Inr (\<lparr>entry_key = (3, ''tiles'', 77), content = [1, 2, 3], sizeBytes = 3,
             createdAt = 0, lastAccessedAt = 0, integrityHash = 6, published = True\<rparr>,
            \<lparr>entries = [\<lparr>entry_key = (3, ''tiles'', 77), content = [1, 2, 3], sizeBytes = 3,
                createdAt = 0, lastAccessedAt = 0, integrityHash = 6, published = True\<rparr>],
              budget = 5, clock = 1, reading = []\<rparr>)
   \<and> fst (get (\<lambda>bs. sum_list (map unat bs))
          \<lparr>entries = [\<lparr>entry_key = (3, ''tiles'', 77), content = [1, 2, 3], sizeBytes = 3,
                createdAt = 0, lastAccessedAt = 0, integrityHash = 6, published = True\<rparr>],
            budget = 5, clock = 1, reading = []\<rparr> (3, ''tiles'', 77))
     = Hit [1, 2, 3]"
proof -
  let ?H = "\<lambda>bs :: bytes. sum_list (map unat bs)"
  let ?e = "\<lparr>entry_key = (3, ''tiles'', 77), content = [1, 2, 3], sizeBytes = 3,
             createdAt = 0, lastAccessedAt = 0, integrityHash = 6, published = True\<rparr>"
  let ?c = "\<lparr>entries = [?e], budget = 5, clock = 1, reading = []\<rparr>"
  have p: "put ?H (empty_cache 5) (3, ''tiles'', 77) [1, 2, 3] = Inr (?e, ?c)"
    by (simp add: put_def publish_def lookup_entry_def write_chunk_def begin_write_def
        empty_cache_def evictIfOverBudget_def candidates_def)
  from cache_round_trip[of ?H "empty_cache 5" "(3, ''tiles'', 77)" "[1, 2, 3]" ?e ?c] p
  have "fst (get ?H ?c (3, ''tiles'', 77)) = Hit [1, 2, 3]" by blast
  with p show ?thesis by simp
qed

lemma map_filter_id: "(\<And>x. P x \<Longrightarrow> f x = x) \<Longrightarrow> map f (filter P xs) = filter P xs"
  by (induction xs) auto

lemma written_cache:
  "publish H (write_chunk (begin_write c k) k bs) k bs
   = Some (c\<lparr>entries := filter (\<lambda>x. entry_key x \<noteq> k) (entries c) @
        [\<lparr>entry_key = k, content = bs, sizeBytes = length bs, createdAt = clock c,
          lastAccessedAt = clock c, integrityHash = H bs, published = True\<rparr>]\<rparr>)"
proof -
  let ?st = "write_chunk (begin_write c k) k bs"
  let ?rest = "filter (\<lambda>x. entry_key x \<noteq> k) (entries c)"
  let ?g = "\<lambda>e. if entry_key e = k
                then e\<lparr>content := content e @ bs, sizeBytes := sizeBytes e + length bs\<rparr>
                else e"
  let ?f = "\<lambda>e. if entry_key e = k then e\<lparr>integrityHash := H bs, published := True\<rparr> else e"
  have g: "map ?g ?rest = ?rest" by (rule map_filter_id) simp
  have f: "map ?f ?rest = ?rest" by (rule map_filter_id) simp
  have st: "entries ?st = ?rest @
        [\<lparr>entry_key = k, content = bs, sizeBytes = length bs, createdAt = clock c,
          lastAccessedAt = clock c, integrityHash = 0, published = False\<rparr>]"
    using g by (simp add: write_chunk_def begin_write_def)
  have "map ?f (entries ?st) = ?rest @
        [\<lparr>entry_key = k, content = bs, sizeBytes = length bs, createdAt = clock c,
          lastAccessedAt = clock c, integrityHash = H bs, published = True\<rparr>]"
    unfolding st using f by simp
  moreover have "?st\<lparr>entries := xs\<rparr> = c\<lparr>entries := xs\<rparr>" for xs
    by (simp add: write_chunk_def begin_write_def)
  ultimately show ?thesis
    by (simp add: publish_def lookup_staged)
qed

lemma candidates_written:
  "entry_key w = k \<Longrightarrow>
   candidates k (c\<lparr>entries := filter (\<lambda>x. entry_key x \<noteq> k) (entries c) @ [w]\<rparr>) = candidates k c"
  by (auto simp: candidates_def intro: filter_cong)

lemma put_cases:
  "put H c k bs =
     (case evictIfOverBudget k
             (c\<lparr>entries := filter (\<lambda>x. entry_key x \<noteq> k) (entries c) @
                [\<lparr>entry_key = k, content = bs, sizeBytes = length bs, createdAt = clock c,
                  lastAccessedAt = clock c, integrityHash = H bs, published = True\<rparr>]\<rparr>) of
        None \<Rightarrow> Inl CacheWriteError
      | Some (ks, c2) \<Rightarrow>
          Inr (\<lparr>entry_key = k, content = bs, sizeBytes = length bs, createdAt = clock c,
                 lastAccessedAt = clock c, integrityHash = H bs, published = True\<rparr>,
               c2\<lparr>clock := clock c2 + 1\<rparr>))"
proof -
  let ?w = "\<lparr>entry_key = k, content = bs, sizeBytes = length bs, createdAt = clock c,
                  lastAccessedAt = clock c, integrityHash = H bs, published = True\<rparr>"
  let ?c1 = "c\<lparr>entries := filter (\<lambda>x. entry_key x \<noteq> k) (entries c) @ [?w]\<rparr>"
  show ?thesis
  proof (cases "evictIfOverBudget k ?c1")
    case None
    then show ?thesis by (simp add: put_def written_cache)
  next
    case (Some r)
    obtain ks c2 where r: "r = (ks, c2)" by (cases r)
    note b = evict_basic[OF Some[unfolded r]]
    have l1: "lookup_entry ?c1 k = Some ?w"
      using find_filter_none[of "\<lambda>e. entry_key e = k" "entries c"]
      by (simp add: lookup_entry_def find_append_first)
    have "lookup_entry c2 k = lookup_entry ?c1 k"
      unfolding lookup_entry_def b(1) using b(6) by (intro find_filter_keep) auto
    with l1 Some r show ?thesis by (simp add: put_def written_cache)
  qed
qed

lemma evict_until_None:
  "evict_until b vs es = None \<longleftrightarrow>
   b < sum_list (map sizeBytes (filter (\<lambda>x. entry_key x \<notin> entry_key ` set vs) es))"
proof (induction vs arbitrary: es)
  case Nil
  then show ?case by auto
next
  case (Cons v vs)
  have le: "sum_list (map sizeBytes (filter (\<lambda>x. entry_key x \<notin> entry_key ` set (v # vs)) es))
            \<le> sum_list (map sizeBytes es)"
    by (rule sum_list_filter_le_nat)
  have eq: "filter (\<lambda>x. entry_key x \<notin> entry_key ` set vs)
              (filter (\<lambda>e. entry_key e \<noteq> entry_key v) es)
            = filter (\<lambda>x. entry_key x \<notin> entry_key ` set (v # vs)) es"
    by (auto intro: filter_cong)
  show ?case
  proof (cases "sum_list (map sizeBytes es) \<le> b")
    case True
    with le show ?thesis by simp
  next
    case False
    then show ?thesis
      using Cons.IH[of "filter (\<lambda>e. entry_key e \<noteq> entry_key v) es"] eq
      by (auto split: option.splits)
  qed
qed

lemma evict_until_minimal:
  "evict_until b vs es = Some (ks, es') \<Longrightarrow> m < length ks \<Longrightarrow>
   b < sum_list (map sizeBytes (filter (\<lambda>x. entry_key x \<notin> set (take m ks)) es))"
proof (induction vs arbitrary: es ks es' m)
  case Nil
  then show ?case by (auto split: if_splits)
next
  case (Cons v vs)
  show ?case
  proof (cases "sum_list (map sizeBytes es) \<le> b")
    case True
    with Cons.prems show ?thesis by auto
  next
    case False
    with Cons.prems obtain ks0 where
      r: "evict_until b vs (filter (\<lambda>e. entry_key e \<noteq> entry_key v) es) = Some (ks0, es')"
      and ks: "ks = entry_key v # ks0"
      by (auto split: option.splits)
    show ?thesis
    proof (cases m)
      case 0
      with False show ?thesis by simp
    next
      case (Suc m')
      with Cons.prems(2) ks have "m' < length ks0" by simp
      from Cons.IH[OF r this]
      have "b < sum_list (map sizeBytes (filter (\<lambda>x. entry_key x \<notin> set (take m' ks0))
                (filter (\<lambda>e. entry_key e \<noteq> entry_key v) es)))" .
      moreover have "filter (\<lambda>x. entry_key x \<notin> set (take m' ks0))
                (filter (\<lambda>e. entry_key e \<noteq> entry_key v) es)
              = filter (\<lambda>x. entry_key x \<notin> set (take m ks)) es"
        unfolding Suc ks by (auto intro: filter_cong)
      ultimately show ?thesis by simp
    qed
  qed
qed

lemma put_fails_iff:
  "(put H c k bs = Inl CacheWriteError) = (budget c < pinned_bytes k c + length bs)"
proof -
  let ?w = "\<lparr>entry_key = k, content = bs, sizeBytes = length bs, createdAt = clock c,
                  lastAccessedAt = clock c, integrityHash = H bs, published = True\<rparr>"
  let ?rest = "filter (\<lambda>x. entry_key x \<noteq> k) (entries c)"
  let ?c1 = "c\<lparr>entries := ?rest @ [?w]\<rparr>"
  let ?keys = "entry_key ` set (sort_key lastAccessedAt (candidates k c))"
  have keys: "?keys = entry_key ` set (candidates k c)" by simp
  have "(put H c k bs = Inl CacheWriteError) = (evictIfOverBudget k ?c1 = None)"
    by (simp add: put_cases split: option.splits)
  also have "\<dots> = (evict_until (budget c) (sort_key lastAccessedAt (candidates k c))
                      (?rest @ [?w]) = None)"
    using candidates_written[of ?w k c]
    by (simp add: evictIfOverBudget_def split: option.splits)
  also have "\<dots> = (budget c < sum_list (map sizeBytes
        (filter (\<lambda>x. entry_key x \<notin> ?keys) (?rest @ [?w]))))"
    by (rule evict_until_None)
  also have "filter (\<lambda>x. entry_key x \<notin> ?keys) (?rest @ [?w])
      = filter (\<lambda>x. entry_key x \<noteq> k \<and> entry_key x \<in> set (reading c)) (entries c) @ [?w]"
  proof -
    have "k \<notin> ?keys" unfolding keys by (auto simp: candidates_def)
    moreover have "filter (\<lambda>x. entry_key x \<notin> ?keys) ?rest
        = filter (\<lambda>x. entry_key x \<noteq> k \<and> entry_key x \<in> set (reading c)) (entries c)"
      unfolding keys filter_filter
      by (rule filter_cong) (auto simp: candidates_def image_iff)
    ultimately show ?thesis by simp
  qed
  finally show ?thesis by (simp add: pinned_bytes_def)
qed

lemma put_evicts_lru:
  assumes d: "distinct (map entry_key (entries c))" and p: "put H c k bs = Inr (e, c')"
  shows "\<exists>ks. (\<exists>n. ks = map entry_key (take n (sort_key lastAccessedAt (candidates k c))))
        \<and> entries c'
            = filter (\<lambda>x. entry_key x \<notin> set ks) (filter (\<lambda>x. entry_key x \<noteq> k) (entries c)) @ [e]
        \<and> (\<forall>m < length ks. budget c <
              sum_list (map sizeBytes (filter (\<lambda>x. entry_key x \<notin> set (take m ks))
                 (filter (\<lambda>x. entry_key x \<noteq> k) (entries c)))) + length bs)
        \<and> set ks \<inter> set (reading c) = {} \<and> k \<notin> set ks
        \<and> (\<forall>v u. v \<in> set (entries c) \<and> entry_key v \<in> set ks \<and> u \<in> set (candidates k c')
              \<longrightarrow> lastAccessedAt v \<le> lastAccessedAt u)"
proof -
  let ?w = "\<lparr>entry_key = k, content = bs, sizeBytes = length bs, createdAt = clock c,
                  lastAccessedAt = clock c, integrityHash = H bs, published = True\<rparr>"
  let ?rest = "filter (\<lambda>x. entry_key x \<noteq> k) (entries c)"
  let ?c1 = "c\<lparr>entries := ?rest @ [?w]\<rparr>"
  let ?vs = "sort_key lastAccessedAt (candidates k c)"
  from p obtain ks c2 where ev: "evictIfOverBudget k ?c1 = Some (ks, c2)"
    and e: "e = ?w" and c': "c' = c2\<lparr>clock := clock c2 + 1\<rparr>"
    by (auto simp: put_cases split: option.splits)
  have cw: "candidates k ?c1 = candidates k c" by (rule candidates_written) simp
  have d1: "distinct (map entry_key (entries ?c1))"
    using d by (auto simp: distinct_map_filter)
  note l = evict_lru[OF ev d1]
  from l(1) have n: "\<exists>n. ks = map entry_key (take n ?vs)" unfolding cw .
  have kn: "k \<notin> set ks" by (rule l(7))
  have es: "entries c' = filter (\<lambda>x. entry_key x \<notin> set ks) ?rest @ [e]"
    using l(2) kn c' e by simp
  have rd: "set ks \<inter> set (reading c) = {}" using l(8) by simp
  from ev obtain es2 where r: "evict_until (budget c) ?vs (?rest @ [?w]) = Some (ks, es2)"
    unfolding evictIfOverBudget_def cw by (auto split: option.splits)
  have mn: "\<forall>m < length ks. budget c <
              sum_list (map sizeBytes (filter (\<lambda>x. entry_key x \<notin> set (take m ks)) ?rest))
              + length bs"
  proof (intro allI impI)
    fix m assume m: "m < length ks"
    have "k \<notin> set (take m ks)" using kn by (auto dest: in_set_takeD)
    with evict_until_minimal[OF r m] show "budget c <
              sum_list (map sizeBytes (filter (\<lambda>x. entry_key x \<notin> set (take m ks)) ?rest))
              + length bs"
      by simp
  qed
  have lru: "\<forall>v u. v \<in> set (entries c) \<and> entry_key v \<in> set ks \<and> u \<in> set (candidates k c')
              \<longrightarrow> lastAccessedAt v \<le> lastAccessedAt u"
  proof (intro allI impI)
    fix v u
    assume a: "v \<in> set (entries c) \<and> entry_key v \<in> set ks \<and> u \<in> set (candidates k c')"
    then have "entry_key v \<noteq> k" using kn by auto
    with a have v1: "v \<in> set (entries ?c1)" by simp
    have "candidates k c' = candidates k c2" unfolding c' by (simp add: candidates_def)
    with a have u2: "u \<in> set (candidates k c2)" by simp
    from l(10)[OF v1 _ u2] a show "lastAccessedAt v \<le> lastAccessedAt u" by blast
  qed
  from n es mn rd kn lru show ?thesis by blast
qed

text \<open>
  C8. From the empty cache, after any sequence of \<open>put\<close>, \<open>get\<close> and read
  markers the total of the cached bytes is within the budget (and keys stay distinct).
  A \<open>put\<close> fails exactly when the new bytes do not fit beside the entries being read,
  which eviction may not touch. Otherwise it succeeds and the result fits the budget:
  it has evicted the first candidates of the cache in the order of \<open>lastAccessedAt\<close>,
  oldest first, and only as many as needed (with any fewer the bytes would exceed the
  budget); every evicted entry was accessed no later than every candidate that stays;
  and no entry being read is evicted. The same holds of \<open>evictIfOverBudget\<close> on its
  own, which evicts nothing when the cache already fits.
\<close>

theorem cache_budget_lru:
  "total_bytes (foldl (cache_step H) (empty_cache b) ops) \<le> b
   \<and> distinct (map entry_key (entries (foldl (cache_step H) (empty_cache b) ops)))
   \<and> (put H c k bs = Inl CacheWriteError) = (budget c < pinned_bytes k c + length bs)
   \<and> (distinct (map entry_key (entries c)) \<and> put H c k bs = Inr (e, c2) \<longrightarrow>
        total_bytes c2 \<le> budget c
        \<and> (\<exists>ks. (\<exists>n. ks = map entry_key (take n (sort_key lastAccessedAt (candidates k c))))
             \<and> entries c2
                 = filter (\<lambda>x. entry_key x \<notin> set ks)
                     (filter (\<lambda>x. entry_key x \<noteq> k) (entries c)) @ [e]
             \<and> (\<forall>m < length ks. budget c <
                   sum_list (map sizeBytes (filter (\<lambda>x. entry_key x \<notin> set (take m ks))
                      (filter (\<lambda>x. entry_key x \<noteq> k) (entries c)))) + length bs)
             \<and> set ks \<inter> set (reading c) = {} \<and> k \<notin> set ks
             \<and> (\<forall>v u. v \<in> set (entries c) \<and> entry_key v \<in> set ks
                      \<and> u \<in> set (candidates k c2)
                   \<longrightarrow> lastAccessedAt v \<le> lastAccessedAt u)))
   \<and> (distinct (map entry_key (entries c)) \<and> evictIfOverBudget k c = Some (ks, c') \<longrightarrow>
        total_bytes c' \<le> budget c
        \<and> (\<exists>n. ks = map entry_key (take n (sort_key lastAccessedAt (candidates k c))))
        \<and> entries c' = filter (\<lambda>e. entry_key e \<notin> set ks) (entries c)
        \<and> set ks \<inter> set (reading c) = {}
        \<and> (total_bytes c \<le> budget c \<longrightarrow> ks = [])
        \<and> (\<forall>v e. v \<in> set (entries c) \<and> entry_key v \<in> set ks \<and> e \<in> set (candidates k c')
              \<longrightarrow> lastAccessedAt v \<le> lastAccessedAt e))"
proof -
  have p: "distinct (map entry_key (entries c)) \<and> put H c k bs = Inr (e, c2) \<longrightarrow>
        total_bytes c2 \<le> budget c
        \<and> (\<exists>ks. (\<exists>n. ks = map entry_key (take n (sort_key lastAccessedAt (candidates k c))))
             \<and> entries c2
                 = filter (\<lambda>x. entry_key x \<notin> set ks)
                     (filter (\<lambda>x. entry_key x \<noteq> k) (entries c)) @ [e]
             \<and> (\<forall>m < length ks. budget c <
                   sum_list (map sizeBytes (filter (\<lambda>x. entry_key x \<notin> set (take m ks))
                      (filter (\<lambda>x. entry_key x \<noteq> k) (entries c)))) + length bs)
             \<and> set ks \<inter> set (reading c) = {} \<and> k \<notin> set ks
             \<and> (\<forall>v u. v \<in> set (entries c) \<and> entry_key v \<in> set ks
                      \<and> u \<in> set (candidates k c2)
                   \<longrightarrow> lastAccessedAt v \<le> lastAccessedAt u))"
    using put_evicts_lru[of c H k bs e c2] put_Inr(7)[of H c k bs e c2] by blast
  from eviction_budget_lru[of H b ops c k ks c'] put_fails_iff[of H c k bs] p
  show ?thesis by blast
qed

theorem cache_budget_lru_witness:
  "put (\<lambda>bs. sum_list (map unat bs))
     \<lparr>entries =
        [\<lparr>entry_key = (1, ''tiles'', 1), content = [1, 1], sizeBytes = 2, createdAt = 4,
          lastAccessedAt = 4, integrityHash = 2, published = True\<rparr>,
         \<lparr>entry_key = (1, ''tiles'', 2), content = [2, 2], sizeBytes = 2, createdAt = 1,
          lastAccessedAt = 1, integrityHash = 4, published = True\<rparr>,
         \<lparr>entry_key = (1, ''tiles'', 3), content = [3, 3, 3], sizeBytes = 3, createdAt = 2,
          lastAccessedAt = 2, integrityHash = 9, published = True\<rparr>],
      budget = 7, clock = 8, reading = [(1, ''tiles'', 3)]\<rparr>
     (1, ''tiles'', 4) [4, 4]
   = Inr (\<lparr>entry_key = (1, ''tiles'', 4), content = [4, 4], sizeBytes = 2, createdAt = 8,
            lastAccessedAt = 8, integrityHash = 8, published = True\<rparr>,
          \<lparr>entries =
            [\<lparr>entry_key = (1, ''tiles'', 1), content = [1, 1], sizeBytes = 2, createdAt = 4,
              lastAccessedAt = 4, integrityHash = 2, published = True\<rparr>,
             \<lparr>entry_key = (1, ''tiles'', 3), content = [3, 3, 3], sizeBytes = 3, createdAt = 2,
              lastAccessedAt = 2, integrityHash = 9, published = True\<rparr>,
             \<lparr>entry_key = (1, ''tiles'', 4), content = [4, 4], sizeBytes = 2, createdAt = 8,
              lastAccessedAt = 8, integrityHash = 8, published = True\<rparr>],
           budget = 7, clock = 9, reading = [(1, ''tiles'', 3)]\<rparr>)
   \<and> put (\<lambda>bs. sum_list (map unat bs))
     \<lparr>entries =
        [\<lparr>entry_key = (1, ''tiles'', 1), content = [1, 1], sizeBytes = 2, createdAt = 4,
          lastAccessedAt = 4, integrityHash = 2, published = True\<rparr>,
         \<lparr>entry_key = (1, ''tiles'', 2), content = [2, 2], sizeBytes = 2, createdAt = 1,
          lastAccessedAt = 1, integrityHash = 4, published = True\<rparr>,
         \<lparr>entry_key = (1, ''tiles'', 3), content = [3, 3, 3], sizeBytes = 3, createdAt = 2,
          lastAccessedAt = 2, integrityHash = 9, published = True\<rparr>],
      budget = 7, clock = 8, reading = [(1, ''tiles'', 3)]\<rparr>
     (1, ''tiles'', 4) [4, 4, 4, 4, 4]
   = Inl CacheWriteError"
proof -
  let ?H = "\<lambda>bs :: bytes. sum_list (map unat bs)"
  let ?e1 = "\<lparr>entry_key = (1, ''tiles'', 1), content = [1, 1], sizeBytes = 2, createdAt = 4,
          lastAccessedAt = 4, integrityHash = 2, published = True\<rparr>"
  let ?e2 = "\<lparr>entry_key = (1, ''tiles'', 2), content = [2, 2], sizeBytes = 2, createdAt = 1,
          lastAccessedAt = 1, integrityHash = 4, published = True\<rparr>"
  let ?e3 = "\<lparr>entry_key = (1, ''tiles'', 3), content = [3, 3, 3], sizeBytes = 3, createdAt = 2,
          lastAccessedAt = 2, integrityHash = 9, published = True\<rparr>"
  let ?w = "\<lparr>entry_key = (1, ''tiles'', 4), content = [4, 4], sizeBytes = 2, createdAt = 8,
            lastAccessedAt = 8, integrityHash = 8, published = True\<rparr>"
  let ?c = "\<lparr>entries = [?e1, ?e2, ?e3], budget = 7, clock = 8, reading = [(1, ''tiles'', 3)]\<rparr>"
  let ?c' = "\<lparr>entries = [?e1, ?e3, ?w], budget = 7, clock = 9, reading = [(1, ''tiles'', 3)]\<rparr>"
  have ok: "put ?H ?c (1, ''tiles'', 4) [4, 4] = Inr (?w, ?c')"
    by (simp add: put_def publish_def lookup_entry_def write_chunk_def begin_write_def
        evictIfOverBudget_def candidates_def)
  have pin: "budget ?c < pinned_bytes (1, ''tiles'', 4) ?c + length [4, 4, 4, 4, 4 :: 8 word]"
    by (simp add: pinned_bytes_def)
  from cache_budget_lru[where H = ?H and c = ?c and k = "(1, ''tiles'', 4)"
      and bs = "[4, 4, 4, 4, 4]"] pin
  have "put ?H ?c (1, ''tiles'', 4) [4, 4, 4, 4, 4] = Inl CacheWriteError" by blast
  with ok show ?thesis by simp
qed

end
